theory Spec2Isabelle
  imports Complex_Main "HOL-Library.Multiset" "HOL-Library.Sublist" "HOL-Library.Product_Lexorder"
begin

section \<open>Event scheduler (benches/python/scheduler\_benchmark.py)\<close>

text \<open>
  Event times are Python floats.  A float is a number, one of the two
  infinities, or NaN.  Python's \<open><\<close> on floats orders the numbers and the
  infinities as usual and is false whenever one side is NaN.
\<close>

datatype pyfloat = NegInf | Num real | PosInf | NaN

fun float_lt :: "pyfloat \<Rightarrow> pyfloat \<Rightarrow> bool" where
  "float_lt NaN _ = False"
| "float_lt _ NaN = False"
| "float_lt (Num a) (Num b) = (a < b)"
| "float_lt NegInf NegInf = False"
| "float_lt NegInf _ = True"
| "float_lt _ NegInf = False"
| "float_lt PosInf _ = False"
| "float_lt _ PosInf = True"

text \<open>Python's \<open><=\<close> on floats: less, or equal and not NaN.\<close>

definition float_le :: "pyfloat \<Rightarrow> pyfloat \<Rightarrow> bool" where
  "float_le a b = (float_lt a b \<or> (a = b \<and> a \<noteq> NaN))"

text \<open>
  The dataclass \<open>Event\<close> has three fields. Its only ordering method is
  \<open>__lt__\<close>, which compares the \<open>time\<close> fields and nothing else.
\<close>

record Event =
  time :: pyfloat
  event_type :: string
  node_id :: int

definition lt :: "Event \<Rightarrow> Event \<Rightarrow> bool" where
  "lt self other = float_lt (time self) (time other)"

text \<open>
  Exceptions that the modelled Python can raise, together with the two error
  names of the specification's taxonomy that the claims mention.  No path of the
  source constructs \<open>CausalityViolation\<close> or \<open>DimensionMismatch\<close>.
\<close>

datatype py_error =
    IndexError
  | ValueError
  | ZeroDivisionError
  | OverflowError
  | CausalityViolation
  | DimensionMismatch

subsection \<open>The standard library's heapq on a Python list\<close>

text \<open>
  \<open>EventScheduler\<close> delegates to \<open>heapq.heappush\<close> and \<open>heapq.heappop\<close>.
  These are transcribed from CPython's \<open>Lib/heapq.py\<close>, statement by statement:
  the list is a HOL list, \<open>heap[i] = v\<close> is \<open>heap[i := v]\<close>, and each
  \<open>while\<close> loop is a recursive function on the loop variables.

  \<open>_siftdown(heap, startpos, pos)\<close>: follow the path to the root, moving
  parents down until a place is found where \<open>newitem\<close> fits.
\<close>

function siftdown_loop :: "Event list \<Rightarrow> nat \<Rightarrow> nat \<Rightarrow> Event \<Rightarrow> Event list \<times> nat" where
  "siftdown_loop heap startpos pos newitem =
     (if pos > startpos then
        (let parentpos = (pos - 1) div 2;
             parent = heap ! parentpos
         in if lt newitem parent
            then siftdown_loop (heap[pos := parent]) startpos parentpos newitem
            else (heap, pos))
      else (heap, pos))"
  by pat_completeness auto
termination
  by (relation "measure (\<lambda>(heap, startpos, pos, newitem). pos)") auto

declare siftdown_loop.simps [simp del]

definition siftdown :: "Event list \<Rightarrow> nat \<Rightarrow> nat \<Rightarrow> Event list" where
  "siftdown heap startpos pos =
     (let newitem = heap ! pos;
          (heap', pos') = siftdown_loop heap startpos pos newitem
      in heap'[pos' := newitem])"

text \<open>
  \<open>_siftup(heap, pos)\<close>: bubble the smaller child up until a leaf is hit,
  put \<open>newitem\<close> there, and let \<open>_siftdown\<close> move it to its final place.
\<close>

function siftup_loop :: "Event list \<Rightarrow> nat \<Rightarrow> nat \<Rightarrow> Event list \<times> nat" where
  "siftup_loop heap endpos pos =
     (let childpos = 2 * pos + 1
      in if childpos < endpos then
           (let rightpos = childpos + 1;
                childpos' = (if rightpos < endpos \<and> \<not> lt (heap ! childpos) (heap ! rightpos)
                             then rightpos else childpos)
            in siftup_loop (heap[pos := heap ! childpos']) endpos childpos')
         else (heap, pos))"
  by pat_completeness auto
termination
  by (relation "measure (\<lambda>(heap, endpos, pos). endpos - pos)") (auto simp: Let_def)

declare siftup_loop.simps [simp del]

definition siftup :: "Event list \<Rightarrow> nat \<Rightarrow> Event list" where
  "siftup heap pos =
     (let endpos = length heap;
          startpos = pos;
          newitem = heap ! pos;
          (heap', pos') = siftup_loop heap endpos pos
      in siftdown (heap'[pos' := newitem]) startpos pos')"

definition heappush :: "Event list \<Rightarrow> Event \<Rightarrow> Event list" where
  "heappush heap item = siftdown (heap @ [item]) 0 (length (heap @ [item]) - 1)"

text \<open>
  \<open>heappop\<close> starts with \<open>heap.pop()\<close>, which raises \<open>IndexError\<close> on an empty
  list.
\<close>

definition heappop :: "Event list \<Rightarrow> py_error + (Event \<times> Event list)" where
  "heappop heap =
     (if heap = [] then Inl IndexError
      else
        (let lastelt = last heap;
             heap1 = butlast heap
         in if heap1 \<noteq> [] then
              (let returnitem = heap1 ! 0;
                   heap2 = heap1[0 := lastelt]
               in Inr (returnitem, siftup heap2 0))
            else Inr (lastelt, heap1)))"

subsection \<open>The class EventScheduler\<close>

text \<open>
  The only attribute of an \<open>EventScheduler\<close> is \<open>queue\<close>; the class has no
  clock.  \<open>schedule\<close> has a single statement, the \<open>heappush\<close>; a result type is
  used so that the absence of a failure branch is visible in the model.
\<close>

record EventScheduler =
  queue :: "Event list"

definition init_scheduler :: EventScheduler where
  "init_scheduler = \<lparr>queue = []\<rparr>"

definition schedule :: "EventScheduler \<Rightarrow> Event \<Rightarrow> py_error + EventScheduler" where
  "schedule self event = Inr (self\<lparr>queue := heappush (queue self) event\<rparr>)"

text \<open>
  \<open>next_event\<close> returns the popped event, or \<open>None\<close> when the queue is empty.
  The guard \<open>if self.queue\<close> keeps \<open>heappop\<close> away from the empty list; the
  \<open>IndexError\<close> branch is kept as it would propagate.
\<close>

definition next_event :: "EventScheduler \<Rightarrow> py_error + (Event option \<times> EventScheduler)" where
  "next_event self =
     (if queue self \<noteq> [] then
        (case heappop (queue self) of
           Inl e \<Rightarrow> Inl e
         | Inr (ev, q) \<Rightarrow> Inr (Some ev, self\<lparr>queue := q\<rparr>))
      else Inr (None, self))"

definition has_events :: "EventScheduler \<Rightarrow> bool" where
  "has_events self = (length (queue self) > 0)"

subsection \<open>The heap invariant\<close>

text \<open>
  The list is read as a binary tree: the parent of index \<open>i > 0\<close> is
  \<open>(i - 1) div 2\<close> (the \<open>(pos - 1) >> 1\<close> of the source).  A list is a heap when
  no element is earlier than its parent.
\<close>

definition parent_of :: "nat \<Rightarrow> nat" where
  "parent_of i = (i - 1) div 2"

text \<open>
  For the proofs, the floats other than NaN are embedded in a linear order:
  \<open>tk\<close> is the key of an event's time.  On events whose times are not NaN,
  \<open>lt\<close> is the strict order of the keys.
\<close>

fun float_key :: "pyfloat \<Rightarrow> int \<times> real" where
  "float_key NegInf = (- 1, 0)"
| "float_key (Num r) = (0, r)"
| "float_key PosInf = (1, 0)"
| "float_key NaN = (2, 0)"

definition tk :: "Event \<Rightarrow> int \<times> real" where
  "tk e = float_key (time e)"

definition no_nan :: "Event list \<Rightarrow> bool" where
  "no_nan h = list_all (\<lambda>e. time e \<noteq> NaN) h"

lemma float_lt_key:
  "a \<noteq> NaN \<Longrightarrow> b \<noteq> NaN \<Longrightarrow> float_lt a b \<longleftrightarrow> float_key a < float_key b"
  by (cases a; cases b) simp_all

lemma float_le_key:
  "a \<noteq> NaN \<Longrightarrow> b \<noteq> NaN \<Longrightarrow> float_le a b \<longleftrightarrow> float_key a \<le> float_key b"
  by (cases a; cases b) (auto simp: float_le_def)

lemma float_lt_not_nan: "float_lt a b \<Longrightarrow> a \<noteq> NaN \<and> b \<noteq> NaN"
  by (cases a; cases b) simp_all

lemma lt_tk: "lt a b \<Longrightarrow> tk a < tk b"
  using float_lt_not_nan[of "time a" "time b"] float_lt_key[of "time a" "time b"]
  by (simp add: lt_def tk_def)

lemma not_lt_tk: "time a \<noteq> NaN \<Longrightarrow> time b \<noteq> NaN \<Longrightarrow> \<not> lt a b \<Longrightarrow> tk b \<le> tk a"
  using float_lt_key[of "time a" "time b"] by (simp add: lt_def tk_def not_less)

lemma no_nan_iff: "no_nan h \<longleftrightarrow> (\<forall>e \<in> set h. time e \<noteq> NaN)"
  by (simp add: no_nan_def list_all_iff)

lemma no_nan_nth: "no_nan h \<Longrightarrow> i < length h \<Longrightarrow> time (h ! i) \<noteq> NaN"
  by (simp add: no_nan_iff)

lemma no_nan_update: "no_nan h \<Longrightarrow> time y \<noteq> NaN \<Longrightarrow> no_nan (h[i := y])"
  using set_update_subset_insert[of h i y] by (auto simp: no_nan_iff)

lemma no_nan_mset: "mset a = mset b \<Longrightarrow> no_nan a = no_nan b"
  using mset_eq_setD[of a b] by (simp add: no_nan_iff)

definition is_heap :: "Event list \<Rightarrow> bool" where
  "is_heap h = list_all (\<lambda>i. tk (h ! parent_of i) \<le> tk (h ! i)) [1..<length h]"

lemma is_heap_iff:
  "is_heap h \<longleftrightarrow> (\<forall>i. 0 < i \<and> i < length h \<longrightarrow> tk (h ! parent_of i) \<le> tk (h ! i))"
  by (auto simp: is_heap_def list_all_iff)

lemma parent_of_less: "0 < i \<Longrightarrow> parent_of i < i"
  unfolding parent_of_def by arith

text \<open>
  While an element is being moved, position \<open>pos\<close> is a hole whose content is
  stale.  \<open>hole_inv\<close> says that every parent/child edge not touching the hole
  is in order and that the children of the hole are not earlier than its parent;
  \<open>below_children\<close> says that the element in flight may sit above the
  children of the hole.
\<close>

definition hole_inv :: "Event list \<Rightarrow> nat \<Rightarrow> bool" where
  "hole_inv h pos \<longleftrightarrow>
     pos < length h \<and>
     (\<forall>i. 0 < i \<and> i < length h \<and> i \<noteq> pos \<and> parent_of i \<noteq> pos
          \<longrightarrow> tk (h ! parent_of i) \<le> tk (h ! i)) \<and>
     (\<forall>c. 0 < c \<and> c < length h \<and> parent_of c = pos \<and> 0 < pos
          \<longrightarrow> tk (h ! parent_of pos) \<le> tk (h ! c))"

definition below_children :: "Event list \<Rightarrow> nat \<Rightarrow> Event \<Rightarrow> bool" where
  "below_children h pos x \<longleftrightarrow>
     (\<forall>c. 0 < c \<and> c < length h \<and> parent_of c = pos \<longrightarrow> tk x \<le> tk (h ! c))"

lemma siftdown_loop_length:
  "siftdown_loop h s p x = (h', p') \<Longrightarrow> length h' = length h \<and> p' \<le> p"
proof (induction h s p x rule: siftdown_loop.induct)
  case (1 heap startpos pos newitem)
  show ?case
  proof (cases "pos > startpos \<and> lt newitem (heap ! ((pos - 1) div 2))")
    case True
    then have "siftdown_loop (heap[pos := heap ! ((pos - 1) div 2)]) startpos ((pos - 1) div 2) newitem = (h', p')"
      using "1.prems" by (subst (asm) siftdown_loop.simps) (simp add: Let_def)
    from "1.IH"[OF _ refl refl _ this] True
    show ?thesis by auto
  next
    case False
    then have "(h', p') = (heap, pos)"
      using "1.prems" by (subst (asm) siftdown_loop.simps) (auto simp: Let_def split: if_splits)
    then show ?thesis by simp
  qed
qed

lemma swap_hole_mset:
  assumes "p < length h" "q < length h" "q \<noteq> p"
  shows "mset (h[p := h ! q, q := x]) = mset (h[p := x])"
proof -
  let ?g = "h[p := x]"
  have "mset (?g[p := ?g ! q, q := ?g ! p]) = mset ?g"
    using assms by (intro mset_swap) auto
  moreover have "?g[p := ?g ! q, q := ?g ! p] = h[p := h ! q, q := x]"
    using assms by simp
  ultimately show ?thesis by simp
qed

lemma siftdown_loop_mset:
  "p < length h \<Longrightarrow> siftdown_loop h s p x = (h', p') \<Longrightarrow> mset (h'[p' := x]) = mset (h[p := x])"
proof (induction h s p x rule: siftdown_loop.induct)
  case (1 heap startpos pos newitem)
  let ?pp = "(pos - 1) div 2"
  show ?case
  proof (cases "pos > startpos \<and> lt newitem (heap ! ?pp)")
    case True
    then have rec: "siftdown_loop (heap[pos := heap ! ?pp]) startpos ?pp newitem = (h', p')"
      using "1.prems" by (subst (asm) siftdown_loop.simps) (simp add: Let_def)
    have pp: "?pp < length heap" "?pp \<noteq> pos" using True "1.prems"(1) by auto
    from "1.IH"[OF _ refl refl _ _ rec] True pp
    have "mset (h'[p' := newitem]) = mset (heap[pos := heap ! ?pp, ?pp := newitem])" by simp
    also have "\<dots> = mset (heap[pos := newitem])"
      using swap_hole_mset[OF "1.prems"(1) pp] .
    finally show ?thesis .
  next
    case False
    then have "(h', p') = (heap, pos)"
      using "1.prems" by (subst (asm) siftdown_loop.simps) (auto simp: Let_def split: if_splits)
    then show ?thesis by simp
  qed
qed

lemma hole_inv_update:
  assumes "hole_inv h p" shows "hole_inv (h[p := y]) p"
proof -
  have ne: "parent_of c \<noteq> c" if "0 < c" for c using parent_of_less[OF that] by simp
  show ?thesis using assms unfolding hole_inv_def
    by (auto simp: ne ne[symmetric])
qed

lemma below_children_update:
  assumes "below_children h p x" shows "below_children (h[p := y]) p x"
proof -
  have "parent_of c \<noteq> c" if "0 < c" for c using parent_of_less[OF that] by simp
  then show ?thesis using assms unfolding below_children_def by auto
qed

lemma fill_hole_is_heap:
  assumes "hole_inv h p" "below_children h p x"
    and "p = 0 \<or> tk (h ! parent_of p) \<le> tk x"
  shows "is_heap (h[p := x])"
  unfolding is_heap_iff
proof (intro allI impI)
  fix i assume i: "0 < i \<and> i < length (h[p := x])"
  let ?q = "parent_of i"
  have qi: "?q < i" using i parent_of_less by simp
  consider "i = p" | "i \<noteq> p" "?q = p" | "i \<noteq> p" "?q \<noteq> p" by blast
  then show "tk (h[p := x] ! ?q) \<le> tk (h[p := x] ! i)"
  proof cases
    case 1
    then have "h[p := x] ! ?q = h ! ?q" "h[p := x] ! i = x" "p \<noteq> 0" using i qi by auto
    then show ?thesis using assms(3) 1 by simp
  next
    case 2
    then have "h[p := x] ! ?q = x" "h[p := x] ! i = h ! i" using i qi by auto
    moreover have "tk x \<le> tk (h ! i)"
      using assms(2) i 2 unfolding below_children_def by simp
    ultimately show ?thesis by simp
  next
    case 3
    then have "h[p := x] ! ?q = h ! ?q" "h[p := x] ! i = h ! i" by auto
    moreover have "tk (h ! ?q) \<le> tk (h ! i)"
      using assms(1) i 3 unfolding hole_inv_def by simp
    ultimately show ?thesis by simp
  qed
qed

lemma hole_move_up:
  assumes h: "hole_inv h p" and b: "below_children h p x"
    and p: "0 < p" and lt: "tk x < tk (h ! parent_of p)"
  shows "hole_inv (h[p := h ! parent_of p]) (parent_of p)
       \<and> below_children (h[p := h ! parent_of p]) (parent_of p) x"
proof -
  define pp where "pp = parent_of p"
  define g where "g = h[p := h ! pp]"
  have pl: "p < length h" using h by (simp add: hole_inv_def)
  have ppp: "pp < p" unfolding pp_def using p by (rule parent_of_less)
  have len: "length g = length h" by (simp add: g_def)
  have gp: "g ! p = h ! pp" using pl by (simp add: g_def)
  have gn: "\<And>j. j \<noteq> p \<Longrightarrow> g ! j = h ! j" by (simp add: g_def)
  have A: "\<And>i. 0 < i \<Longrightarrow> i < length h \<Longrightarrow> i \<noteq> p \<Longrightarrow> parent_of i \<noteq> p
              \<Longrightarrow> tk (h ! parent_of i) \<le> tk (h ! i)"
    using h by (simp add: hole_inv_def)
  have C: "\<And>c. 0 < c \<Longrightarrow> c < length h \<Longrightarrow> parent_of c = p
              \<Longrightarrow> tk (h ! pp) \<le> tk (h ! c)"
    using h p by (simp add: hole_inv_def pp_def)
  have 1: "tk (g ! parent_of i) \<le> tk (g ! i)"
    if "0 < i" "i < length g" "i \<noteq> pp" "parent_of i \<noteq> pp" for i
  proof (cases "parent_of i = p")
    case True
    then have "i \<noteq> p" using parent_of_less[OF that(1)] by simp
    then have "g ! i = h ! i" by (rule gn)
    moreover have "g ! parent_of i = h ! pp" using True gp by simp
    ultimately show ?thesis using C[OF that(1) _ True] that(2) len by simp
  next
    case False
    have "i \<noteq> p" using that(4) pp_def by auto
    then have "g ! i = h ! i" "g ! parent_of i = h ! parent_of i" using False gn by auto
    then show ?thesis using A[OF that(1) _ \<open>i \<noteq> p\<close> False] that(2) len by simp
  qed
  have sib: "tk (h ! pp) \<le> tk (g ! c)"
    if "0 < c" "c < length g" "parent_of c = pp" for c
  proof (cases "c = p")
    case True then show ?thesis using gp by simp
  next
    case False
    have "parent_of c \<noteq> p" using that(3) ppp by simp
    from A[OF that(1) _ False this] that(2,3) len gn[OF False]
    show ?thesis by simp
  qed
  have 2: "tk (g ! parent_of pp) \<le> tk (g ! c)"
    if "0 < c" "c < length g" "parent_of c = pp" "0 < pp" for c
  proof -
    have q: "parent_of pp < pp" using that(4) by (rule parent_of_less)
    then have n: "parent_of pp \<noteq> p" "pp \<noteq> p" using ppp by auto
    have "pp < length h" using ppp pl by simp
    from A[OF that(4) this n(2) n(1)]
    have "tk (h ! parent_of pp) \<le> tk (h ! pp)" .
    also have "\<dots> \<le> tk (g ! c)" using sib that by simp
    finally show ?thesis using gn[OF n(1)] by simp
  qed
  have 3: "tk x \<le> tk (g ! c)"
    if "0 < c" "c < length g" "parent_of c = pp" for c
    using sib[OF that] lt pp_def by simp
  have "pp < length g" using ppp pl len by simp
  then have "hole_inv g pp \<and> below_children g pp x"
    unfolding hole_inv_def below_children_def
    using 1 2 3 by blast
  then show ?thesis by (simp add: g_def pp_def)
qed

lemma siftdown_loop_heap:
  "hole_inv h p \<Longrightarrow> below_children h p x \<Longrightarrow> s = 0 \<Longrightarrow> no_nan h \<Longrightarrow> time x \<noteq> NaN \<Longrightarrow>
   siftdown_loop h s p x = (h', p') \<Longrightarrow> is_heap (h'[p' := x])"
proof (induction h s p x rule: siftdown_loop.induct)
  case (1 heap startpos pos newitem)
  let ?pp = "(pos - 1) div 2"
  have ppd: "?pp = parent_of pos" by (simp add: parent_of_def)
  show ?case
  proof (cases "pos > startpos \<and> lt newitem (heap ! ?pp)")
    case True
    then have rec: "siftdown_loop (heap[pos := heap ! ?pp]) startpos ?pp newitem = (h', p')"
      using "1.prems" by (subst (asm) siftdown_loop.simps) (simp add: Let_def)
    have "0 < pos" "tk newitem < tk (heap ! parent_of pos)"
      using True lt_tk[of newitem "heap ! ?pp"] unfolding ppd by auto
    from hole_move_up[OF "1.prems"(1,2) this]
    have hb: "hole_inv (heap[pos := heap ! ?pp]) ?pp"
        "below_children (heap[pos := heap ! ?pp]) ?pp newitem"
      unfolding ppd by auto
    have "pos < length heap" using "1.prems"(1) by (simp add: hole_inv_def)
    then have "?pp < length heap" by simp
    then have nn: "no_nan (heap[pos := heap ! ?pp])"
      using "1.prems"(4) by (simp add: no_nan_update no_nan_nth)
    from "1.IH"[OF _ refl refl _ hb "1.prems"(3) nn "1.prems"(5) rec] True
    show ?thesis by simp
  next
    case False
    then have eq: "h' = heap" "p' = pos"
      using "1.prems"(6) by (subst (asm) siftdown_loop.simps; auto simp: Let_def split: if_splits)+
    have "pos = 0 \<or> tk (heap ! parent_of pos) \<le> tk newitem"
    proof (cases "pos = 0")
      case True
      then show ?thesis by simp
    next
      case pos: False
      have "pos < length heap" using "1.prems"(1) by (simp add: hole_inv_def)
      then have "?pp < length heap" by simp
      then have "time (heap ! ?pp) \<noteq> NaN" using "1.prems"(4) by (simp add: no_nan_nth)
      from not_lt_tk[OF "1.prems"(5) this] False pos "1.prems"(3)
      show ?thesis unfolding ppd by simp
    qed
    then show ?thesis
      unfolding eq using fill_hole_is_heap[OF "1.prems"(1,2)] by simp
  qed
qed

lemma parent_of_children:
  "0 < c \<and> parent_of c = p \<longleftrightarrow> c = 2 * p + 1 \<or> c = 2 * p + 2"
  unfolding parent_of_def by arith

lemma siftup_loop_unfold_step:
  assumes "2 * p + 1 < e"
  shows "siftup_loop h e p =
     siftup_loop (h[p := h ! (if 2 * p + 2 < e \<and> \<not> lt (h ! (2 * p + 1)) (h ! (2 * p + 2))
                                then 2 * p + 2 else 2 * p + 1)]) e
                 (if 2 * p + 2 < e \<and> \<not> lt (h ! (2 * p + 1)) (h ! (2 * p + 2))
                  then 2 * p + 2 else 2 * p + 1)"
  using assms by (subst siftup_loop.simps) (simp add: Let_def)

lemma siftup_loop_unfold_stop:
  assumes "\<not> 2 * p + 1 < e"
  shows "siftup_loop h e p = (h, p)"
  using assms by (subst siftup_loop.simps) (simp add: Let_def)

lemma siftup_loop_length:
  "siftup_loop h e p = (h', p') \<Longrightarrow>
     length h' = length h \<and> p \<le> p' \<and> (p < e \<longrightarrow> p' < e) \<and> e \<le> 2 * p' + 1"
proof (induction h e p rule: siftup_loop.induct)
  case (1 heap endpos pos)
  show ?case
  proof (cases "2 * pos + 1 < endpos")
    case True
    define c where "c = (if 2 * pos + 2 < endpos \<and> \<not> lt (heap ! (2 * pos + 1)) (heap ! (2 * pos + 2))
                         then 2 * pos + 2 else 2 * pos + 1)"
    have rec: "siftup_loop (heap[pos := heap ! c]) endpos c = (h', p')"
      using siftup_loop_unfold_step[OF True, of heap] "1.prems" by (simp add: c_def)
    have c: "pos < c" "c < endpos" using True by (auto simp: c_def)
    have "length h' = length (heap[pos := heap ! c]) \<and> c \<le> p' \<and> (c < endpos \<longrightarrow> p' < endpos)
            \<and> endpos \<le> 2 * p' + 1"
      by (rule "1.IH"[OF refl True refl _ rec[unfolded c_def], folded c_def]) (simp add: c_def)
    then show ?thesis using c by auto
  next
    case False
    then show ?thesis using "1.prems" siftup_loop_unfold_stop[OF False, of heap] by auto
  qed
qed


lemma siftup_loop_mset:
  "p < length h \<Longrightarrow> e = length h \<Longrightarrow> siftup_loop h e p = (h', p') \<Longrightarrow>
     mset (h'[p' := y]) = mset (h[p := y])"
proof (induction h e p rule: siftup_loop.induct)
  case (1 heap endpos pos)
  show ?case
  proof (cases "2 * pos + 1 < endpos")
    case True
    define c where "c = (if 2 * pos + 2 < endpos \<and> \<not> lt (heap ! (2 * pos + 1)) (heap ! (2 * pos + 2))
                         then 2 * pos + 2 else 2 * pos + 1)"
    have rec: "siftup_loop (heap[pos := heap ! c]) endpos c = (h', p')"
      using siftup_loop_unfold_step[OF True, of heap] "1.prems" by (simp add: c_def)
    have c: "c \<noteq> pos" "c < length heap" using True "1.prems"(2) by (auto simp: c_def)
    have "mset (h'[p' := y]) = mset (heap[pos := heap ! c, c := y])"
      by (rule "1.IH"[OF refl True refl _ _ _ rec[unfolded c_def], folded c_def])
         (use c "1.prems"(2) in \<open>simp_all add: c_def\<close>)
    also have "\<dots> = mset (heap[pos := y])"
      using swap_hole_mset[OF "1.prems"(1) c(2,1)] .
    finally show ?thesis .
  next
    case False
    then show ?thesis using "1.prems" siftup_loop_unfold_stop[OF False, of heap] by auto
  qed
qed

lemma hole_move_down:
  assumes h: "hole_inv h p" and l: "2 * p + 1 < length h" and nn: "no_nan h"
    and c: "c = (if 2 * p + 2 < length h \<and> \<not> lt (h ! (2 * p + 1)) (h ! (2 * p + 2))
                 then 2 * p + 2 else 2 * p + 1)"
  shows "hole_inv (h[p := h ! c]) c"
proof -
  define g where "g = h[p := h ! c]"
  have pl: "p < length h" using h by (simp add: hole_inv_def)
  have cl: "c < length h" using l c by auto
  have cp: "parent_of c = p" "0 < c" "p < c"
    using parent_of_children[of c p] c by auto
  have len: "length g = length h" by (simp add: g_def)
  have gp: "g ! p = h ! c" using pl by (simp add: g_def)
  have gn: "\<And>j. j \<noteq> p \<Longrightarrow> g ! j = h ! j" by (simp add: g_def)
  have A: "\<And>i. 0 < i \<Longrightarrow> i < length h \<Longrightarrow> i \<noteq> p \<Longrightarrow> parent_of i \<noteq> p
              \<Longrightarrow> tk (h ! parent_of i) \<le> tk (h ! i)"
    using h by (simp add: hole_inv_def)
  have C: "\<And>d. 0 < d \<Longrightarrow> d < length h \<Longrightarrow> parent_of d = p \<Longrightarrow> 0 < p
              \<Longrightarrow> tk (h ! parent_of p) \<le> tk (h ! d)"
    using h by (simp add: hole_inv_def)
  have smaller: "tk (h ! c) \<le> tk (h ! i)"
    if "0 < i" "i < length h" "parent_of i = p" for i
  proof -
    have i: "i = 2 * p + 1 \<or> i = 2 * p + 2"
      using parent_of_children[of i p] that by simp
    show ?thesis
    proof (cases "2 * p + 2 < length h \<and> \<not> lt (h ! (2 * p + 1)) (h ! (2 * p + 2))")
      case True
      then have "tk (h ! (2 * p + 2)) \<le> tk (h ! (2 * p + 1))"
        using not_lt_tk[of "h ! (2 * p + 1)" "h ! (2 * p + 2)"] nn l by (simp add: no_nan_nth)
      then show ?thesis using True c i by auto
    next
      case False
      then have "c = 2 * p + 1" using c by simp
      moreover have "tk (h ! (2 * p + 1)) < tk (h ! (2 * p + 2))" if "i = 2 * p + 2"
        using False that \<open>i < length h\<close> lt_tk[of "h ! (2 * p + 1)" "h ! (2 * p + 2)"] by simp
      ultimately show ?thesis using i by auto
    qed
  qed
  have 1: "tk (g ! parent_of i) \<le> tk (g ! i)"
    if i: "0 < i" "i < length g" "i \<noteq> c" "parent_of i \<noteq> c" for i
  proof -
    consider "i = p" | "i \<noteq> p" "parent_of i = p" | "i \<noteq> p" "parent_of i \<noteq> p" by blast
    then show ?thesis
    proof cases
      case 1
      then have "parent_of p \<noteq> p" using parent_of_less[of p] i(1) by simp
      then have "g ! parent_of i = h ! parent_of p" using 1 gn by simp
      moreover have "tk (h ! parent_of p) \<le> tk (h ! c)"
        using C[OF cp(2) cl cp(1)] i(1) 1 by simp
      ultimately show ?thesis using 1 gp by simp
    next
      case 2
      then have "g ! parent_of i = h ! c" "g ! i = h ! i" using gp gn by simp_all
      then show ?thesis using smaller[OF i(1) _ 2(2)] i(2) len by simp
    next
      case 3
      then have "g ! parent_of i = h ! parent_of i" "g ! i = h ! i" using gn by simp_all
      then show ?thesis using A[OF i(1) _ 3] i(2) len by simp
    qed
  qed
  have 2: "tk (g ! parent_of c) \<le> tk (g ! d)"
    if d: "0 < d" "d < length g" "parent_of d = c" for d
  proof -
    have "c < d" using parent_of_less[OF d(1)] d(3) by simp
    then have dp: "d \<noteq> p" using cp(3) by simp
    have "parent_of d \<noteq> p" using d(3) cp(3) by simp
    from A[OF d(1) _ dp this] d(2,3) len
    have "tk (h ! c) \<le> tk (h ! d)" by simp
    then show ?thesis using gn[OF dp] gp cp(1) by simp
  qed
  have "hole_inv g c"
    unfolding hole_inv_def using 1 2 cl len by auto
  then show ?thesis by (simp add: g_def)
qed

lemma siftup_loop_hole:
  "hole_inv h p \<Longrightarrow> e = length h \<Longrightarrow> no_nan h \<Longrightarrow> siftup_loop h e p = (h', p') \<Longrightarrow> hole_inv h' p'"
proof (induction h e p rule: siftup_loop.induct)
  case (1 heap endpos pos)
  show ?case
  proof (cases "2 * pos + 1 < endpos")
    case True
    define c where "c = (if 2 * pos + 2 < endpos \<and> \<not> lt (heap ! (2 * pos + 1)) (heap ! (2 * pos + 2))
                         then 2 * pos + 2 else 2 * pos + 1)"
    have rec: "siftup_loop (heap[pos := heap ! c]) endpos c = (h', p')"
      using siftup_loop_unfold_step[OF True, of heap] "1.prems" by (simp add: c_def)
    have hm: "hole_inv (heap[pos := heap ! c]) c"
      using hole_move_down[OF "1.prems"(1) _ "1.prems"(3), of c] True "1.prems"(2)
      by (simp add: c_def)
    have "c < length heap" using True "1.prems"(2) by (auto simp: c_def)
    then have nn: "no_nan (heap[pos := heap ! c])"
      using "1.prems"(3) by (simp add: no_nan_update no_nan_nth)
    show ?thesis
      by (rule "1.IH"[OF refl True refl _ _ _ _ rec[unfolded c_def], folded c_def])
         (use hm nn "1.prems"(2) in \<open>simp_all add: c_def\<close>)
  next
    case False
    then show ?thesis using "1.prems" siftup_loop_unfold_stop[OF False, of heap] by auto
  qed
qed

lemma siftdown_length: "length (siftdown h s p) = length h"
proof -
  obtain h' p' where r: "siftdown_loop h s p (h ! p) = (h', p')" by (cases "siftdown_loop h s p (h ! p)")
  then show ?thesis using siftdown_loop_length[OF r] by (simp add: siftdown_def)
qed

lemma siftdown_mset: "p < length h \<Longrightarrow> mset (siftdown h s p) = mset h"
proof -
  assume p: "p < length h"
  obtain h' p' where r: "siftdown_loop h s p (h ! p) = (h', p')" by (cases "siftdown_loop h s p (h ! p)")
  then show ?thesis using siftdown_loop_mset[OF p r] by (simp add: siftdown_def)
qed

lemma siftdown_is_heap:
  assumes "hole_inv h p" "below_children h p (h ! p)" "no_nan h"
  shows "is_heap (siftdown h 0 p)"
proof -
  obtain h' p' where r: "siftdown_loop h 0 p (h ! p) = (h', p')" by (cases "siftdown_loop h 0 p (h ! p)")
  have "p < length h" using assms(1) by (simp add: hole_inv_def)
  then have "time (h ! p) \<noteq> NaN" using assms(3) by (simp add: no_nan_nth)
  from siftdown_loop_heap[OF assms(1,2) refl assms(3) this r] r
  show ?thesis by (simp add: siftdown_def)
qed

lemma siftup_length: "length (siftup h p) = length h"
proof -
  obtain h' p' where r: "siftup_loop h (length h) p = (h', p')" by (cases "siftup_loop h (length h) p")
  then show ?thesis using siftup_loop_length[OF r] by (simp add: siftup_def siftdown_length)
qed

lemma siftup_mset: "p < length h \<Longrightarrow> mset (siftup h p) = mset h"
proof -
  assume p: "p < length h"
  obtain h' p' where r: "siftup_loop h (length h) p = (h', p')" by (cases "siftup_loop h (length h) p")
  have l: "length h' = length h" "p' < length h" using siftup_loop_length[OF r] p by auto
  have "mset (siftup h p) = mset (h'[p' := h ! p])"
    using r l by (simp add: siftup_def siftdown_mset)
  also have "\<dots> = mset (h[p := h ! p])" by (rule siftup_loop_mset[OF p refl r])
  finally show ?thesis by simp
qed

lemma siftup_is_heap:
  assumes "hole_inv h 0" "no_nan h"
  shows "is_heap (siftup h 0)"
proof -
  obtain h' p' where r: "siftup_loop h (length h) 0 = (h', p')" by (cases "siftup_loop h (length h) 0")
  have l: "length h' = length h" "length h \<le> 2 * p' + 1" using siftup_loop_length[OF r] by auto
  have hi: "hole_inv h' p'" by (rule siftup_loop_hole[OF assms(1) refl assms(2) r])
  let ?g = "h'[p' := h ! 0]"
  have 1: "hole_inv ?g p'" by (rule hole_inv_update[OF hi])
  have h0: "0 < length h" using assms(1) by (simp add: hole_inv_def)
  have "mset ?g = mset (h[0 := h ! 0])" by (rule siftup_loop_mset[OF h0 refl r])
  then have "mset ?g = mset h" by simp
  then have nn: "no_nan ?g" using assms(2) no_nan_mset by blast
  have "below_children ?g p' (?g ! p')"
    unfolding below_children_def
  proof (intro allI impI)
    fix c assume "0 < c \<and> c < length ?g \<and> parent_of c = p'"
    then have "c < length h" "c = 2 * p' + 1 \<or> c = 2 * p' + 2"
      using parent_of_children[of c p'] l by auto
    then have False using l(2) by auto
    then show "tk (?g ! p') \<le> tk (?g ! c)" ..
  qed
  from siftdown_is_heap[OF 1 this nn] show ?thesis
    using r by (simp add: siftup_def)
qed

lemma heappush_length: "length (heappush h x) = Suc (length h)"
  by (simp add: heappush_def siftdown_length)

lemma heappush_mset: "mset (heappush h x) = add_mset x (mset h)"
  by (simp add: heappush_def siftdown_mset)

lemma heappush_is_heap:
  assumes "is_heap h" "no_nan h" "time x \<noteq> NaN" shows "is_heap (heappush h x)"
proof -
  let ?g = "h @ [x]"
  let ?n = "length h"
  have nochild: "\<not> (0 < c \<and> c < length ?g \<and> parent_of c = ?n)" for c
    using parent_of_less[of c] by auto
  have "hole_inv ?g ?n"
    unfolding hole_inv_def
  proof (intro conjI allI impI)
    show "?n < length ?g" by simp
  next
    fix i assume i: "0 < i \<and> i < length ?g \<and> i \<noteq> ?n \<and> parent_of i \<noteq> ?n"
    then have il: "i < ?n" by simp
    then have "parent_of i < ?n" using parent_of_less[of i] i by simp
    then show "tk (?g ! parent_of i) \<le> tk (?g ! i)"
      using assms il i by (simp add: nth_append is_heap_iff)
  next
    fix c assume "0 < c \<and> c < length ?g \<and> parent_of c = ?n \<and> 0 < ?n"
    then show "tk (?g ! parent_of ?n) \<le> tk (?g ! c)" using nochild[of c] by simp
  qed
  moreover have "below_children ?g ?n (?g ! ?n)"
    unfolding below_children_def using nochild by blast
  moreover have "no_nan ?g" using assms(2,3) by (simp add: no_nan_def)
  ultimately have "is_heap (siftdown ?g 0 ?n)" by (rule siftdown_is_heap)
  then show ?thesis by (simp add: heappush_def)
qed

lemma heappush_no_nan: "no_nan (heappush h x) \<longleftrightarrow> no_nan h \<and> time x \<noteq> NaN"
proof -
  have "mset (heappush h x) = mset (x # h)" by (simp add: heappush_mset)
  from no_nan_mset[OF this] show ?thesis by (auto simp: no_nan_def)
qed

lemma is_heap_butlast: "is_heap h \<Longrightarrow> is_heap (butlast h)"
proof -
  assume h: "is_heap h"
  show ?thesis
    unfolding is_heap_iff
  proof (intro allI impI)
    fix i assume i: "0 < i \<and> i < length (butlast h)"
    then have pl: "parent_of i < length (butlast h)" using parent_of_less[of i] by simp
    have "i < length h" using i by auto
    then have "tk (h ! parent_of i) \<le> tk (h ! i)"
      using h i unfolding is_heap_iff by blast
    then show "tk (butlast h ! parent_of i) \<le> tk (butlast h ! i)"
      using pl i by (simp add: nth_butlast)
  qed
qed

lemma is_heap_root_min:
  assumes "is_heap h" "i < length h"
  shows "tk (h ! 0) \<le> tk (h ! i)"
  using assms(2)
proof (induction i rule: less_induct)
  case (less i)
  show ?case
  proof (cases "i = 0")
    case True then show ?thesis by simp
  next
    case False
    then have p: "parent_of i < i" using parent_of_less by simp
    then have "tk (h ! 0) \<le> tk (h ! parent_of i)" using less by simp
    also have "\<dots> \<le> tk (h ! i)" using assms(1) False less.prems by (simp add: is_heap_iff)
    finally show ?thesis .
  qed
qed

lemma is_heap_hd_min:
  assumes "is_heap h" "x \<in> set h"
  shows "tk (h ! 0) \<le> tk x"
  using assms is_heap_root_min by (auto simp: in_set_conv_nth)

lemma heappop_nonempty:
  assumes "h \<noteq> []"
  shows "\<exists>q. heappop h = Inr (h ! 0, q) \<and> add_mset (h ! 0) (mset q) = mset h
            \<and> length q = length h - 1 \<and> (is_heap h \<and> no_nan h \<longrightarrow> is_heap q)"
proof (cases "butlast h = []")
  case True
  then obtain l where h: "h = [l]" using assms by (cases h) (auto split: if_splits)
  then show ?thesis by (simp add: heappop_def is_heap_def)
next
  case False
  then obtain a t where b: "butlast h = a # t" by (cases "butlast h") auto
  have h: "h = (a # t) @ [last h]" using assms b append_butlast_last_id by metis
  have h0: "h ! 0 = a" by (subst h) simp
  let ?h2 = "(butlast h)[0 := last h]"
  have pop: "heappop h = Inr (h ! 0, siftup ?h2 0)"
    using assms False b h0 by (simp add: heappop_def Let_def)
  have ms: "add_mset (h ! 0) (mset (siftup ?h2 0)) = mset h"
  proof -
    have "mset (siftup ?h2 0) = mset ?h2" by (rule siftup_mset) (simp add: b)
    also have "\<dots> = add_mset (last h) (mset t)" by (simp add: b)
    finally have "add_mset (h ! 0) (mset (siftup ?h2 0)) = add_mset a (add_mset (last h) (mset t))"
      using h0 by simp
    also have "\<dots> = mset ((a # t) @ [last h])" by simp
    also have "\<dots> = mset h" using h by simp
    finally show ?thesis .
  qed
  have len: "length (siftup ?h2 0) = length h - 1" by (simp add: siftup_length)
  have hp: "is_heap (siftup ?h2 0)" if ih: "is_heap h" and nn: "no_nan h"
  proof -
    have hb: "is_heap (butlast h)" by (rule is_heap_butlast[OF ih])
    have "set (butlast h) \<subseteq> set h" by (auto dest: in_set_butlastD)
    moreover have "last h \<in> set h" using assms by simp
    ultimately have nn2: "no_nan ?h2"
      using nn set_update_subset_insert[of "butlast h" 0 "last h"] by (auto simp: no_nan_iff)
    have "hole_inv ?h2 0"
      unfolding hole_inv_def
    proof (intro conjI allI impI)
      show "0 < length ?h2" by (simp add: b)
    next
      fix i assume i: "0 < i \<and> i < length ?h2 \<and> i \<noteq> 0 \<and> parent_of i \<noteq> 0"
      then show "tk (?h2 ! parent_of i) \<le> tk (?h2 ! i)"
        using hb by (simp add: is_heap_iff)
    next
      fix c assume "0 < c \<and> c < length ?h2 \<and> parent_of c = 0 \<and> (0::nat) < 0"
      then show "tk (?h2 ! parent_of 0) \<le> tk (?h2 ! c)" by simp
    qed
    then show ?thesis using nn2 by (rule siftup_is_heap)
  qed
  show ?thesis using pop ms len hp by blast
qed

lemma no_nan_remove: "add_mset x (mset q) = mset h \<Longrightarrow> no_nan h \<Longrightarrow> no_nan q"
proof -
  assume a: "add_mset x (mset q) = mset h" and n: "no_nan h"
  have "set q \<subseteq> set h"
  proof
    fix y assume "y \<in> set q"
    then have "y \<in># add_mset x (mset q)" by simp
    then show "y \<in> set h" using a by (metis set_mset_mset)
  qed
  then show ?thesis using n by (auto simp: no_nan_iff)
qed

subsection \<open>Scheduler operations keep the queue a heap\<close>

lemma schedule_queue:
  "schedule s e = Inr (s\<lparr>queue := heappush (queue s) e\<rparr>)"
  by (simp add: schedule_def)

lemma next_event_nonempty:
  assumes "queue s \<noteq> []"
  shows "\<exists>q. next_event s = Inr (Some (queue s ! 0), s\<lparr>queue := q\<rparr>)
            \<and> add_mset (queue s ! 0) (mset q) = mset (queue s)
            \<and> length q = length (queue s) - 1
            \<and> (is_heap (queue s) \<and> no_nan (queue s) \<longrightarrow> is_heap q \<and> no_nan q)"
proof -
  from heappop_nonempty[OF assms] obtain q where
    q: "heappop (queue s) = Inr (queue s ! 0, q)"
       "add_mset (queue s ! 0) (mset q) = mset (queue s)"
       "length q = length (queue s) - 1"
       "is_heap (queue s) \<and> no_nan (queue s) \<longrightarrow> is_heap q"
    by blast
  have "no_nan (queue s) \<longrightarrow> no_nan q" using no_nan_remove[OF q(2)] by blast
  moreover have "next_event s = Inr (Some (queue s ! 0), s\<lparr>queue := q\<rparr>)"
    using assms q(1) by (simp add: next_event_def)
  ultimately show ?thesis using q by blast
qed

lemma next_event_empty: "queue s = [] \<Longrightarrow> next_event s = Inr (None, s)"
  by (simp add: next_event_def)

lemma next_event_shrinks:
  assumes "has_events s" "next_event s = Inr (r, s')"
  shows "length (queue s') < length (queue s)"
proof -
  have ne: "queue s \<noteq> []" using assms(1) by (simp add: has_events_def)
  from next_event_nonempty[OF ne] assms(2) ne show ?thesis by auto
qed

subsection \<open>Sequences of scheduler calls\<close>

text \<open>
  A client can only call \<open>schedule\<close> and \<open>next_event\<close>.  \<open>run_ops\<close> performs a
  list of such calls from a given scheduler; an exception ends the run.
\<close>

datatype sched_op = Schedule Event | NextEvent

fun run_ops :: "EventScheduler \<Rightarrow> sched_op list \<Rightarrow> py_error + EventScheduler" where
  "run_ops s [] = Inr s"
| "run_ops s (Schedule e # ops) =
     (case schedule s e of Inl err \<Rightarrow> Inl err | Inr s' \<Rightarrow> run_ops s' ops)"
| "run_ops s (NextEvent # ops) =
     (case next_event s of Inl err \<Rightarrow> Inl err | Inr (r, s') \<Rightarrow> run_ops s' ops)"

text \<open>No scheduled event of the list has the time NaN.\<close>

fun ops_no_nan :: "sched_op list \<Rightarrow> bool" where
  "ops_no_nan [] = True"
| "ops_no_nan (Schedule e # ops) = (time e \<noteq> NaN \<and> ops_no_nan ops)"
| "ops_no_nan (NextEvent # ops) = ops_no_nan ops"

text \<open>
  The insertion loop of \<open>benchmark_insert_remove\<close>,
  \<open>for ...: scheduler.schedule(event)\<close>, over a list of events.
\<close>

fun schedule_all :: "EventScheduler \<Rightarrow> Event list \<Rightarrow> py_error + EventScheduler" where
  "schedule_all s [] = Inr s"
| "schedule_all s (e # es) =
     (case schedule s e of Inl err \<Rightarrow> Inl err | Inr s' \<Rightarrow> schedule_all s' es)"

text \<open>
  The removal loop of \<open>benchmark_insert_remove\<close>,
  \<open>while scheduler.has_events(): scheduler.next_event()\<close>, collecting the events
  that the calls return, in the order of the calls.
\<close>

function drain :: "EventScheduler \<Rightarrow> py_error + Event list" where
  "drain s =
     (if has_events s then
        (case next_event s of
           Inl err \<Rightarrow> Inl err
         | Inr (r, s') \<Rightarrow>
             (case drain s' of
                Inl err \<Rightarrow> Inl err
              | Inr out \<Rightarrow> Inr ((case r of None \<Rightarrow> [] | Some ev \<Rightarrow> [ev]) @ out)))
      else Inr [])"
  by pat_completeness auto
termination
proof (relation "measure (\<lambda>s. length (queue s))")
  show "wf (measure (\<lambda>s. length (queue s)))" by simp
next
  fix s :: EventScheduler and x2 x y
  assume "has_events s" "next_event s = Inr x2" "(x, y) = x2"
  then show "(y, s) \<in> measure (\<lambda>s. length (queue s))"
    using next_event_shrinks[of s x y] by simp
qed

declare drain.simps [simp del]

definition schedule_then_drain :: "Event list \<Rightarrow> py_error + Event list" where
  "schedule_then_drain evs =
     (case schedule_all init_scheduler evs of
        Inl err \<Rightarrow> Inl err
      | Inr s \<Rightarrow> drain s)"

text \<open>
  The order that the specification describes: non-decreasing time, events of
  equal time in insertion order.  For times other than NaN this is the stable
  sort of the inserted sequence by the key of the time.
\<close>

definition fifo_time_order :: "Event list \<Rightarrow> Event list" where
  "fifo_time_order evs = sort_key tk evs"

lemma run_ops_total: "\<exists>s'. run_ops s ops = Inr s'"
proof (induction ops arbitrary: s)
  case Nil
  then show ?case by simp
next
  case (Cons a ops)
  show ?case
  proof (cases a)
    case (Schedule e)
    then show ?thesis using Cons[of "s\<lparr>queue := heappush (queue s) e\<rparr>"] by (simp add: schedule_def)
  next
    case NextEvent
    show ?thesis
    proof (cases "queue s = []")
      case True
      then show ?thesis using NextEvent Cons[of s] by (simp add: next_event_empty)
    next
      case False
      from next_event_nonempty[OF False] obtain q where
        "next_event s = Inr (Some (queue s ! 0), s\<lparr>queue := q\<rparr>)" by blast
      then show ?thesis using NextEvent Cons[of "s\<lparr>queue := q\<rparr>"] by simp
    qed
  qed
qed

lemma run_ops_is_heap:
  "is_heap (queue s) \<Longrightarrow> no_nan (queue s) \<Longrightarrow> ops_no_nan ops \<Longrightarrow> run_ops s ops = Inr s' \<Longrightarrow>
     is_heap (queue s') \<and> no_nan (queue s')"
proof (induction ops arbitrary: s)
  case Nil
  then show ?case by simp
next
  case (Cons a ops)
  show ?case
  proof (cases a)
    case (Schedule e)
    let ?s = "s\<lparr>queue := heappush (queue s) e\<rparr>"
    have e: "time e \<noteq> NaN" "ops_no_nan ops" using Cons.prems(3) Schedule by simp_all
    have "is_heap (queue ?s)" "no_nan (queue ?s)"
      using Cons.prems(1,2) e(1) by (simp_all add: heappush_is_heap heappush_no_nan)
    moreover have "run_ops ?s ops = Inr s'" using Cons.prems(4) Schedule by (simp add: schedule_def)
    ultimately show ?thesis using Cons.IH e(2) by blast
  next
    case NextEvent
    have o: "ops_no_nan ops" using Cons.prems(3) NextEvent by simp
    show ?thesis
    proof (cases "queue s = []")
      case True
      then have "run_ops s ops = Inr s'"
        using Cons.prems(4) NextEvent by (simp add: next_event_empty)
      then show ?thesis using Cons.IH Cons.prems(1,2) o by blast
    next
      case False
      from next_event_nonempty[OF False] Cons.prems(1,2) obtain q where
        q: "next_event s = Inr (Some (queue s ! 0), s\<lparr>queue := q\<rparr>)" "is_heap q" "no_nan q"
        by blast
      then have "is_heap (queue (s\<lparr>queue := q\<rparr>))" "no_nan (queue (s\<lparr>queue := q\<rparr>))" by simp_all
      moreover have "run_ops (s\<lparr>queue := q\<rparr>) ops = Inr s'"
        using Cons.prems(4) NextEvent q(1) by simp
      ultimately show ?thesis using Cons.IH o by blast
    qed
  qed
qed

lemma schedule_all_result:
  "\<exists>s'. schedule_all s evs = Inr s' \<and> mset (queue s') = mset (queue s) + mset evs
        \<and> (is_heap (queue s) \<and> no_nan (queue s) \<and> no_nan evs \<longrightarrow> is_heap (queue s'))"
proof (induction evs arbitrary: s)
  case Nil
  then show ?case by simp
next
  case (Cons e evs)
  let ?s = "s\<lparr>queue := heappush (queue s) e\<rparr>"
  from Cons[of ?s] obtain s' where
    s': "schedule_all ?s evs = Inr s'" "mset (queue s') = mset (queue ?s) + mset evs"
        "is_heap (queue ?s) \<and> no_nan (queue ?s) \<and> no_nan evs \<longrightarrow> is_heap (queue s')"
    by blast
  have "is_heap (queue s')" if "is_heap (queue s)" "no_nan (queue s)" "no_nan (e # evs)"
  proof -
    have e: "time e \<noteq> NaN" "no_nan evs" using that(3) by (simp_all add: no_nan_def)
    have "is_heap (queue ?s)" "no_nan (queue ?s)"
      using that(1,2) e(1) by (simp_all add: heappush_is_heap heappush_no_nan)
    then show ?thesis using s'(3) e(2) by blast
  qed
  then show ?case using s'(1,2) by (simp add: schedule_def heappush_mset)
qed

lemma drain_result:
  "\<exists>out. drain s = Inr out \<and> mset out = mset (queue s)
         \<and> (is_heap (queue s) \<and> no_nan (queue s) \<longrightarrow> sorted (map tk out))"
proof (induction s rule: drain.induct)
  case (1 s)
  show ?case
  proof (cases "queue s = []")
    case True
    then show ?thesis by (subst drain.simps) (simp add: has_events_def)
  next
    case False
    from next_event_nonempty[OF False] obtain q where
      q: "next_event s = Inr (Some (queue s ! 0), s\<lparr>queue := q\<rparr>)"
         "add_mset (queue s ! 0) (mset q) = mset (queue s)"
         "is_heap (queue s) \<and> no_nan (queue s) \<longrightarrow> is_heap q \<and> no_nan q" by blast
    have he: "has_events s" using False by (simp add: has_events_def)
    from "1.IH"[OF he q(1) refl] obtain out where
      out: "drain (s\<lparr>queue := q\<rparr>) = Inr out" "mset out = mset q"
           "is_heap q \<and> no_nan q \<longrightarrow> sorted (map tk out)"
      by auto
    have d: "drain s = Inr (queue s ! 0 # out)"
      using he q(1) out(1) by (subst drain.simps) simp
    have "sorted (map tk (queue s ! 0 # out))" if hs: "is_heap (queue s)" and nn: "no_nan (queue s)"
    proof -
      have "\<forall>x\<in>set out. tk (queue s ! 0) \<le> tk x"
      proof
        fix x assume "x \<in> set out"
        then have "x \<in># mset q" using out(2) by (metis set_mset_mset)
        then have "x \<in># mset (queue s)" using q(2) by (metis add_mset_add_single union_iff)
        then show "tk (queue s ! 0) \<le> tk x"
          using is_heap_hd_min[OF hs] by simp
      qed
      moreover have "sorted (map tk out)" using out(3) q(3) hs nn by blast
      ultimately show ?thesis by simp
    qed
    moreover have "mset (queue s ! 0 # out) = mset (queue s)" using out(2) q(2) by simp
    ultimately show ?thesis using d by blast
  qed
qed

lemma sorted_tk_float_le:
  assumes "sorted (map tk out)" "no_nan out"
  shows "sorted_wrt (\<lambda>a b. float_le (time a) (time b)) out"
proof -
  have "sorted_wrt (\<lambda>a b. tk a \<le> tk b) out" using assms(1) by (simp add: sorted_map)
  then show ?thesis
  proof (rule sorted_wrt_mono_rel[rotated])
    fix a b assume "a \<in> set out" "b \<in> set out" "tk a \<le> tk b"
    then show "float_le (time a) (time b)"
      using assms(2) float_le_key[of "time a" "time b"] by (simp add: no_nan_iff tk_def)
  qed
qed

lemma is_heap_Nil: "is_heap []"
  by (simp add: is_heap_def)

subsection \<open>Claims about the scheduler\<close>

text \<open>
  Claim C1, as amended.  For every sequence of events inserted with \<open>schedule\<close>
  into a fresh scheduler, calling \<open>next_event\<close> until the queue is empty raises
  nothing and returns exactly the inserted events (as a multiset).  If no event
  has the time NaN, they are returned in non-decreasing time order (each is
  \<open><=\<close> every later one).  Nothing is promised about the relative order of
  events with equal time.
\<close>

theorem drain_time_sorted_permutation:
  "\<exists>out. schedule_then_drain evs = Inr out \<and> mset out = mset evs \<and>
         (no_nan evs \<longrightarrow> sorted_wrt (\<lambda>a b. float_le (time a) (time b)) out)"
proof -
  from schedule_all_result[of init_scheduler evs] obtain s where
    s: "schedule_all init_scheduler evs = Inr s" "mset (queue s) = mset evs"
       "no_nan evs \<longrightarrow> is_heap (queue s)"
    by (auto simp: init_scheduler_def is_heap_Nil no_nan_def)
  from drain_result[of s] obtain out where
    out: "drain s = Inr out" "mset out = mset (queue s)"
         "is_heap (queue s) \<and> no_nan (queue s) \<longrightarrow> sorted (map tk out)"
    by blast
  have "sorted_wrt (\<lambda>a b. float_le (time a) (time b)) out" if nn: "no_nan evs"
  proof -
    have "no_nan (queue s)" "no_nan out"
      using nn no_nan_mset[OF s(2)] no_nan_mset[OF out(2)] by simp_all
    then show ?thesis using out(3) s(3) nn sorted_tk_float_le by blast
  qed
  then show ?thesis using s(1,2) out(1,2) by (simp add: schedule_then_drain_def)
qed

text \<open>
  Witness for C1 as amended: events of times \<open>3\<close>, \<open>1\<close>, \<open>2\<close> come back in the
  order \<open>1\<close>, \<open>2\<close>, \<open>3\<close>.
\<close>

theorem drain_time_sorted_permutation_witness:
  "no_nan
     [\<lparr>time = Num 3, event_type = ''E'', node_id = 0\<rparr>,
       \<lparr>time = Num 1, event_type = ''E'', node_id = 1\<rparr>,
       \<lparr>time = Num 2, event_type = ''E'', node_id = 2\<rparr>]
   \<and> schedule_then_drain
     [\<lparr>time = Num 3, event_type = ''E'', node_id = 0\<rparr>,
       \<lparr>time = Num 1, event_type = ''E'', node_id = 1\<rparr>,
       \<lparr>time = Num 2, event_type = ''E'', node_id = 2\<rparr>]
   = Inr
     [\<lparr>time = Num 1, event_type = ''E'', node_id = 1\<rparr>,
       \<lparr>time = Num 2, event_type = ''E'', node_id = 2\<rparr>,
       \<lparr>time = Num 3, event_type = ''E'', node_id = 0\<rparr>]
   \<and> sorted_wrt (\<lambda>a b. float_le (time a) (time b))
     [\<lparr>time = Num 1, event_type = ''E'', node_id = 1\<rparr>,
       \<lparr>time = Num 2, event_type = ''E'', node_id = 2\<rparr>,
       \<lparr>time = Num 3, event_type = ''E'', node_id = 0\<rparr>]"
proof -
  let ?evs = "[\<lparr>time = Num 3, event_type = ''E'', node_id = 0\<rparr>,
       \<lparr>time = Num 1, event_type = ''E'', node_id = 1\<rparr>,
       \<lparr>time = Num 2, event_type = ''E'', node_id = 2\<rparr>]"
  let ?out = "[\<lparr>time = Num 1, event_type = ''E'', node_id = 1\<rparr>,
       \<lparr>time = Num 2, event_type = ''E'', node_id = 2\<rparr>,
       \<lparr>time = Num 3, event_type = ''E'', node_id = 0\<rparr>]"
  have n: "no_nan ?evs" by (simp add: no_nan_def)
  have r: "schedule_then_drain ?evs = Inr ?out" by code_simp
  from drain_time_sorted_permutation[of ?evs] r n
  have "sorted_wrt (\<lambda>a b. float_le (time a) (time b)) ?out"
    by (simp only: sum.inject) blast
  with n r show ?thesis by blast
qed

text \<open>
  Claim C1 as stated fails, in two ways.  Four events with the same time \<open>1\<close>
  are inserted with node ids \<open>0, 1, 2, 3\<close>; they come back in the order
  \<open>0, 2, 1, 3\<close>, which is not the insertion order that a FIFO tie-break would
  give.  And when events of times \<open>3\<close>, NaN, \<open>1\<close>, \<open>0\<close> are inserted, the event
  of time \<open>1\<close> comes back before the event of time \<open>0\<close>.
\<close>

theorem fifo_tie_break_counterexample:
  "schedule_then_drain
     [\<lparr>time = Num 1, event_type = ''E'', node_id = 0\<rparr>,
       \<lparr>time = Num 1, event_type = ''E'', node_id = 1\<rparr>,
       \<lparr>time = Num 1, event_type = ''E'', node_id = 2\<rparr>,
       \<lparr>time = Num 1, event_type = ''E'', node_id = 3\<rparr>]
   = Inr
     [\<lparr>time = Num 1, event_type = ''E'', node_id = 0\<rparr>,
       \<lparr>time = Num 1, event_type = ''E'', node_id = 2\<rparr>,
       \<lparr>time = Num 1, event_type = ''E'', node_id = 1\<rparr>,
       \<lparr>time = Num 1, event_type = ''E'', node_id = 3\<rparr>]
   \<and> schedule_then_drain
     [\<lparr>time = Num 1, event_type = ''E'', node_id = 0\<rparr>,
       \<lparr>time = Num 1, event_type = ''E'', node_id = 1\<rparr>,
       \<lparr>time = Num 1, event_type = ''E'', node_id = 2\<rparr>,
       \<lparr>time = Num 1, event_type = ''E'', node_id = 3\<rparr>]
   \<noteq> Inr (fifo_time_order
     [\<lparr>time = Num 1, event_type = ''E'', node_id = 0\<rparr>,
       \<lparr>time = Num 1, event_type = ''E'', node_id = 1\<rparr>,
       \<lparr>time = Num 1, event_type = ''E'', node_id = 2\<rparr>,
       \<lparr>time = Num 1, event_type = ''E'', node_id = 3\<rparr>])
   \<and> schedule_then_drain
     [\<lparr>time = Num 3, event_type = ''E'', node_id = 0\<rparr>,
       \<lparr>time = NaN, event_type = ''E'', node_id = 1\<rparr>,
       \<lparr>time = Num 1, event_type = ''E'', node_id = 2\<rparr>,
       \<lparr>time = Num 0, event_type = ''E'', node_id = 3\<rparr>]
   = Inr
     [\<lparr>time = Num 1, event_type = ''E'', node_id = 2\<rparr>,
       \<lparr>time = Num 0, event_type = ''E'', node_id = 3\<rparr>,
       \<lparr>time = NaN, event_type = ''E'', node_id = 1\<rparr>,
       \<lparr>time = Num 3, event_type = ''E'', node_id = 0\<rparr>]
   \<and> \<not> sorted_wrt (\<lambda>a b. float_le (time a) (time b))
     [\<lparr>time = Num 1, event_type = ''E'', node_id = 2\<rparr>,
       \<lparr>time = Num 0, event_type = ''E'', node_id = 3\<rparr>,
       \<lparr>time = NaN, event_type = ''E'', node_id = 1\<rparr>,
       \<lparr>time = Num 3, event_type = ''E'', node_id = 0\<rparr>]"
proof -
  have 1: "schedule_then_drain
     [\<lparr>time = Num 1, event_type = ''E'', node_id = 0\<rparr>,
       \<lparr>time = Num 1, event_type = ''E'', node_id = 1\<rparr>,
       \<lparr>time = Num 1, event_type = ''E'', node_id = 2\<rparr>,
       \<lparr>time = Num 1, event_type = ''E'', node_id = 3\<rparr>]
   = Inr
     [\<lparr>time = Num 1, event_type = ''E'', node_id = 0\<rparr>,
       \<lparr>time = Num 1, event_type = ''E'', node_id = 2\<rparr>,
       \<lparr>time = Num 1, event_type = ''E'', node_id = 1\<rparr>,
       \<lparr>time = Num 1, event_type = ''E'', node_id = 3\<rparr>]"
    by code_simp
  have 2: "fifo_time_order
     [\<lparr>time = Num 1, event_type = ''E'', node_id = 0\<rparr>,
       \<lparr>time = Num 1, event_type = ''E'', node_id = 1\<rparr>,
       \<lparr>time = Num 1, event_type = ''E'', node_id = 2\<rparr>,
       \<lparr>time = Num 1, event_type = ''E'', node_id = 3\<rparr>]
   = [\<lparr>time = Num 1, event_type = ''E'', node_id = 0\<rparr>,
       \<lparr>time = Num 1, event_type = ''E'', node_id = 1\<rparr>,
       \<lparr>time = Num 1, event_type = ''E'', node_id = 2\<rparr>,
       \<lparr>time = Num 1, event_type = ''E'', node_id = 3\<rparr>]"
    by code_simp
  have 3: "schedule_then_drain
     [\<lparr>time = Num 3, event_type = ''E'', node_id = 0\<rparr>,
       \<lparr>time = NaN, event_type = ''E'', node_id = 1\<rparr>,
       \<lparr>time = Num 1, event_type = ''E'', node_id = 2\<rparr>,
       \<lparr>time = Num 0, event_type = ''E'', node_id = 3\<rparr>]
   = Inr
     [\<lparr>time = Num 1, event_type = ''E'', node_id = 2\<rparr>,
       \<lparr>time = Num 0, event_type = ''E'', node_id = 3\<rparr>,
       \<lparr>time = NaN, event_type = ''E'', node_id = 1\<rparr>,
       \<lparr>time = Num 3, event_type = ''E'', node_id = 0\<rparr>]"
    by code_simp
  have 4: "\<not> sorted_wrt (\<lambda>a b. float_le (time a) (time b))
     [\<lparr>time = Num 1, event_type = ''E'', node_id = 2\<rparr>,
       \<lparr>time = Num 0, event_type = ''E'', node_id = 3\<rparr>,
       \<lparr>time = NaN, event_type = ''E'', node_id = 1\<rparr>,
       \<lparr>time = Num 3, event_type = ''E'', node_id = 0\<rparr>]"
    by (simp add: float_le_def)
  from 1 2 3 4 show ?thesis by simp
qed

text \<open>
  Claim C2, as amended.  \<open>EventScheduler\<close> keeps no current time and
  \<open>schedule\<close> makes no check: for every scheduler state and every event,
  whatever its time, \<open>schedule\<close> succeeds and the event is added to the queue.
\<close>

theorem schedule_always_inserts:
  "\<exists>s'. schedule s e = Inr s' \<and> mset (queue s') = add_mset e (mset (queue s))"
  by (simp add: schedule_def heappush_mset)

text \<open>
  Claim C2 as stated fails.  A scheduler holding one event of time \<open>5\<close> hands
  it out with \<open>next_event\<close>, so the simulation has reached time \<open>5\<close>.  Scheduling
  an event of time \<open>1 < 5\<close> afterwards does not fail with \<open>CausalityViolation\<close>:
  the event is inserted.
\<close>

theorem causality_violation_counterexample:
  "next_event \<lparr>queue = [\<lparr>time = Num 5, event_type = ''E'', node_id = 0\<rparr>]\<rparr>
     = Inr (Some \<lparr>time = Num 5, event_type = ''E'', node_id = 0\<rparr>, \<lparr>queue = []\<rparr>)
   \<and> float_lt (time \<lparr>time = Num 1, event_type = ''E'', node_id = 1\<rparr>)
       (time \<lparr>time = Num 5, event_type = ''E'', node_id = 0\<rparr>)
   \<and> schedule \<lparr>queue = []\<rparr> \<lparr>time = Num 1, event_type = ''E'', node_id = 1\<rparr>
     = Inr \<lparr>queue = [\<lparr>time = Num 1, event_type = ''E'', node_id = 1\<rparr>]\<rparr>
   \<and> schedule \<lparr>queue = []\<rparr> \<lparr>time = Num 1, event_type = ''E'', node_id = 1\<rparr>
     \<noteq> Inl CausalityViolation"
  by code_simp

text \<open>
  Claim C10, as amended.  In every scheduler state that calls of \<open>schedule\<close>
  and \<open>next_event\<close> can produce from a fresh scheduler: when the queue is empty,
  \<open>next_event\<close> returns \<open>None\<close> without raising and leaves the scheduler as it
  was, and \<open>has_events\<close> is false; when the queue is not empty, \<open>has_events\<close> is
  true and \<open>next_event\<close> returns a pending event and removes exactly that
  event.  If no scheduled event had the time NaN, the returned event has a
  minimal time: its time is \<open><=\<close> the time of every pending event.
\<close>

theorem next_event_minimum:
  "\<exists>s. run_ops init_scheduler ops = Inr s \<and>
     (if queue s = []
      then next_event s = Inr (None, s) \<and> \<not> has_events s
      else has_events s \<and>
           (\<exists>e q. next_event s = Inr (Some e, s\<lparr>queue := q\<rparr>) \<and>
                  e \<in> set (queue s) \<and>
                  mset (queue s) = add_mset e (mset q) \<and>
                  (ops_no_nan ops \<longrightarrow>
                     (\<forall>x \<in> set (queue s). float_le (time e) (time x)))))"
proof -
  from run_ops_total[of init_scheduler ops] obtain s where
    s: "run_ops init_scheduler ops = Inr s" by blast
  show ?thesis
  proof (cases "queue s = []")
    case True
    then show ?thesis using s by (simp add: next_event_empty has_events_def)
  next
    case False
    from next_event_nonempty[OF False] obtain q where
      q: "next_event s = Inr (Some (queue s ! 0), s\<lparr>queue := q\<rparr>)"
         "add_mset (queue s ! 0) (mset q) = mset (queue s)" by blast
    have m: "queue s ! 0 \<in> set (queue s)" using False by simp
    have min: "\<forall>x \<in> set (queue s). float_le (time (queue s ! 0)) (time x)" if o: "ops_no_nan ops"
    proof
      fix x assume x: "x \<in> set (queue s)"
      have "is_heap (queue init_scheduler)" "no_nan (queue init_scheduler)"
        by (simp_all add: init_scheduler_def is_heap_Nil no_nan_def)
      from run_ops_is_heap[OF this o s] have hs: "is_heap (queue s)" "no_nan (queue s)"
        by simp_all
      have "tk (queue s ! 0) \<le> tk x" using is_heap_hd_min[OF hs(1) x] .
      then show "float_le (time (queue s ! 0)) (time x)"
        using hs(2) x m float_le_key[of "time (queue s ! 0)" "time x"]
        by (simp add: no_nan_iff tk_def)
    qed
    have "has_events s" using False by (simp add: has_events_def)
    then show ?thesis using s q False m min by auto
  qed
qed

text \<open>
  Witness for C10 as amended: after scheduling events of times \<open>3\<close>, \<open>1\<close>, \<open>2\<close>
  and one \<open>next_event\<close>, the events of times \<open>2\<close> and \<open>3\<close> are pending and
  \<open>next_event\<close> returns the one of time \<open>2\<close>.
\<close>

theorem next_event_minimum_witness:
  "ops_no_nan [Schedule \<lparr>time = Num 3, event_type = ''E'', node_id = 0\<rparr>,
       Schedule \<lparr>time = Num 1, event_type = ''E'', node_id = 1\<rparr>,
       Schedule \<lparr>time = Num 2, event_type = ''E'', node_id = 2\<rparr>,
       NextEvent]
   \<and> run_ops init_scheduler [Schedule \<lparr>time = Num 3, event_type = ''E'', node_id = 0\<rparr>,
       Schedule \<lparr>time = Num 1, event_type = ''E'', node_id = 1\<rparr>,
       Schedule \<lparr>time = Num 2, event_type = ''E'', node_id = 2\<rparr>,
       NextEvent]
     = Inr \<lparr>queue = [\<lparr>time = Num 2, event_type = ''E'', node_id = 2\<rparr>,
       \<lparr>time = Num 3, event_type = ''E'', node_id = 0\<rparr>]\<rparr>
   \<and> has_events \<lparr>queue = [\<lparr>time = Num 2, event_type = ''E'', node_id = 2\<rparr>,
       \<lparr>time = Num 3, event_type = ''E'', node_id = 0\<rparr>]\<rparr>
   \<and> next_event \<lparr>queue = [\<lparr>time = Num 2, event_type = ''E'', node_id = 2\<rparr>,
       \<lparr>time = Num 3, event_type = ''E'', node_id = 0\<rparr>]\<rparr>
     = Inr (Some \<lparr>time = Num 2, event_type = ''E'', node_id = 2\<rparr>,
            \<lparr>queue = [\<lparr>time = Num 3, event_type = ''E'', node_id = 0\<rparr>]\<rparr>)
   \<and> float_le (time \<lparr>time = Num 2, event_type = ''E'', node_id = 2\<rparr>) (time \<lparr>time = Num 2, event_type = ''E'', node_id = 2\<rparr>)
   \<and> float_le (time \<lparr>time = Num 2, event_type = ''E'', node_id = 2\<rparr>) (time \<lparr>time = Num 3, event_type = ''E'', node_id = 0\<rparr>)"
proof -
  let ?ops = "[Schedule \<lparr>time = Num 3, event_type = ''E'', node_id = 0\<rparr>,
       Schedule \<lparr>time = Num 1, event_type = ''E'', node_id = 1\<rparr>,
       Schedule \<lparr>time = Num 2, event_type = ''E'', node_id = 2\<rparr>,
       NextEvent]"
  let ?q = "[\<lparr>time = Num 2, event_type = ''E'', node_id = 2\<rparr>,
       \<lparr>time = Num 3, event_type = ''E'', node_id = 0\<rparr>]"
  have o: "ops_no_nan ?ops" by simp
  have r: "run_ops init_scheduler ?ops = Inr \<lparr>queue = ?q\<rparr>"
    by code_simp
  have n: "next_event \<lparr>queue = ?q\<rparr>
     = Inr (Some \<lparr>time = Num 2, event_type = ''E'', node_id = 2\<rparr>,
            \<lparr>queue = [\<lparr>time = Num 3, event_type = ''E'', node_id = 0\<rparr>]\<rparr>)"
    by code_simp
  from next_event_minimum[of ?ops] r o n
  have "has_events \<lparr>queue = ?q\<rparr>
      \<and> (\<forall>x \<in> set ?q. float_le (time \<lparr>time = Num 2, event_type = ''E'', node_id = 2\<rparr>) (time x))"
    by (simp only: sum.inject) auto
  then have "has_events \<lparr>queue = ?q\<rparr>"
    "float_le (time \<lparr>time = Num 2, event_type = ''E'', node_id = 2\<rparr>) (time \<lparr>time = Num 2, event_type = ''E'', node_id = 2\<rparr>)"
    "float_le (time \<lparr>time = Num 2, event_type = ''E'', node_id = 2\<rparr>) (time \<lparr>time = Num 3, event_type = ''E'', node_id = 0\<rparr>)"
    by simp_all
  with o r n show ?thesis by blast
qed

text \<open>
  Claim C10 as stated fails.  After events of times \<open>3\<close>, NaN, \<open>1\<close>, \<open>0\<close> have
  been scheduled, the queue is \<open>[1, NaN, 3, 0]\<close> and \<open>next_event\<close> returns the
  event of time \<open>1\<close> while the event of time \<open>0 < 1\<close> is pending.
\<close>

theorem next_event_nan_counterexample:
  "run_ops init_scheduler [Schedule \<lparr>time = Num 3, event_type = ''E'', node_id = 0\<rparr>,
       Schedule \<lparr>time = NaN, event_type = ''E'', node_id = 1\<rparr>,
       Schedule \<lparr>time = Num 1, event_type = ''E'', node_id = 2\<rparr>,
       Schedule \<lparr>time = Num 0, event_type = ''E'', node_id = 3\<rparr>]
     = Inr \<lparr>queue = [\<lparr>time = Num 1, event_type = ''E'', node_id = 2\<rparr>,
       \<lparr>time = NaN, event_type = ''E'', node_id = 1\<rparr>,
       \<lparr>time = Num 3, event_type = ''E'', node_id = 0\<rparr>,
       \<lparr>time = Num 0, event_type = ''E'', node_id = 3\<rparr>]\<rparr>
   \<and> next_event \<lparr>queue = [\<lparr>time = Num 1, event_type = ''E'', node_id = 2\<rparr>,
       \<lparr>time = NaN, event_type = ''E'', node_id = 1\<rparr>,
       \<lparr>time = Num 3, event_type = ''E'', node_id = 0\<rparr>,
       \<lparr>time = Num 0, event_type = ''E'', node_id = 3\<rparr>]\<rparr>
     = Inr (Some \<lparr>time = Num 1, event_type = ''E'', node_id = 2\<rparr>,
            \<lparr>queue = [\<lparr>time = Num 0, event_type = ''E'', node_id = 3\<rparr>,
       \<lparr>time = NaN, event_type = ''E'', node_id = 1\<rparr>,
       \<lparr>time = Num 3, event_type = ''E'', node_id = 0\<rparr>]\<rparr>)
   \<and> \<lparr>time = Num 0, event_type = ''E'', node_id = 3\<rparr> \<in> set [\<lparr>time = Num 1, event_type = ''E'', node_id = 2\<rparr>,
       \<lparr>time = NaN, event_type = ''E'', node_id = 1\<rparr>,
       \<lparr>time = Num 3, event_type = ''E'', node_id = 0\<rparr>,
       \<lparr>time = Num 0, event_type = ''E'', node_id = 3\<rparr>]
   \<and> float_lt (time \<lparr>time = Num 0, event_type = ''E'', node_id = 3\<rparr>) (time \<lparr>time = Num 1, event_type = ''E'', node_id = 2\<rparr>)
   \<and> \<not> float_le (time \<lparr>time = Num 1, event_type = ''E'', node_id = 2\<rparr>) (time \<lparr>time = Num 0, event_type = ''E'', node_id = 3\<rparr>)"
proof -
  have 1: "run_ops init_scheduler [Schedule \<lparr>time = Num 3, event_type = ''E'', node_id = 0\<rparr>,
       Schedule \<lparr>time = NaN, event_type = ''E'', node_id = 1\<rparr>,
       Schedule \<lparr>time = Num 1, event_type = ''E'', node_id = 2\<rparr>,
       Schedule \<lparr>time = Num 0, event_type = ''E'', node_id = 3\<rparr>]
     = Inr \<lparr>queue = [\<lparr>time = Num 1, event_type = ''E'', node_id = 2\<rparr>,
       \<lparr>time = NaN, event_type = ''E'', node_id = 1\<rparr>,
       \<lparr>time = Num 3, event_type = ''E'', node_id = 0\<rparr>,
       \<lparr>time = Num 0, event_type = ''E'', node_id = 3\<rparr>]\<rparr>"
    by code_simp
  have 2: "next_event \<lparr>queue = [\<lparr>time = Num 1, event_type = ''E'', node_id = 2\<rparr>,
       \<lparr>time = NaN, event_type = ''E'', node_id = 1\<rparr>,
       \<lparr>time = Num 3, event_type = ''E'', node_id = 0\<rparr>,
       \<lparr>time = Num 0, event_type = ''E'', node_id = 3\<rparr>]\<rparr>
     = Inr (Some \<lparr>time = Num 1, event_type = ''E'', node_id = 2\<rparr>,
            \<lparr>queue = [\<lparr>time = Num 0, event_type = ''E'', node_id = 3\<rparr>,
       \<lparr>time = NaN, event_type = ''E'', node_id = 1\<rparr>,
       \<lparr>time = Num 3, event_type = ''E'', node_id = 0\<rparr>]\<rparr>)"
    by code_simp
  have 3: "\<lparr>time = Num 0, event_type = ''E'', node_id = 3\<rparr> \<in> set [\<lparr>time = Num 1, event_type = ''E'', node_id = 2\<rparr>,
       \<lparr>time = NaN, event_type = ''E'', node_id = 1\<rparr>,
       \<lparr>time = Num 3, event_type = ''E'', node_id = 0\<rparr>,
       \<lparr>time = Num 0, event_type = ''E'', node_id = 3\<rparr>]"
    "float_lt (time \<lparr>time = Num 0, event_type = ''E'', node_id = 3\<rparr>) (time \<lparr>time = Num 1, event_type = ''E'', node_id = 2\<rparr>)"
    "\<not> float_le (time \<lparr>time = Num 1, event_type = ''E'', node_id = 2\<rparr>) (time \<lparr>time = Num 0, event_type = ''E'', node_id = 3\<rparr>)"
    by (simp_all add: float_le_def)
  from 1 2 3 show ?thesis by blast
qed

section \<open>Quantum state primitives (benches/python/quantum\_benchmark.py)\<close>

text \<open>
  States are one-dimensional numpy arrays of \<open>dtype=complex\<close> and gates are
  two-dimensional ones.  A state is modelled as a list of complex numbers and a
  gate as the list of its rows.  The entries of the gates are the float64
  values that the source computes.  Sums and products are those of the complex
  field: the rounding of each float64 operation, overflow and NaN are not
  modelled.

  \<open>gate @ state\<close> is numpy's matrix-vector product; numpy raises \<open>ValueError\<close>
  when the row length of the matrix differs from the length of the vector.
  \<open>np.vdot(a, b)\<close> conjugates its first argument, sums the products, and raises
  \<open>ValueError\<close> when the two arrays have different sizes.
\<close>

type_synonym cvec = "complex list"









definition vdot :: "cvec \<Rightarrow> cvec \<Rightarrow> py_error + complex" where
  "vdot a b =
     (if length a \<noteq> length b then Inl ValueError
      else Inr (sum_list (map2 (\<lambda>x y. cnj x * y) a b)))"

definition fidelity :: "cvec \<Rightarrow> cvec \<Rightarrow> py_error + real" where
  "fidelity state1 state2 =
     (case vdot state1 state2 of
        Inl err \<Rightarrow> Inl err
      | Inr inner \<Rightarrow> Inr ((cmod inner) ^ 2))"

text \<open>
  The measures the claims speak about: the Euclidean norm of a state, being
  normalised, and the inner product \<open>\<langle>a|b\<rangle>\<close> written as the sum over the indices.
\<close>

definition norm_sq :: "cvec \<Rightarrow> real" where
  "norm_sq v = sum_list (map (\<lambda>x. (cmod x) ^ 2) v)"



definition braket :: "cvec \<Rightarrow> cvec \<Rightarrow> complex" where
  "braket a b = (\<Sum>i < length a. cnj (a ! i) * (b ! i))"

subsection \<open>The Pauli gates are isometries, the Hadamard gate nearly\<close>












subsection \<open>Properties of the inner product\<close>

definition dotsum :: "cvec \<Rightarrow> cvec \<Rightarrow> complex" where
  "dotsum a b = sum_list (map2 (\<lambda>x y. cnj x * y) a b)"

lemma vdot_dotsum: "length a = length b \<Longrightarrow> vdot a b = Inr (dotsum a b)"
  by (simp add: vdot_def dotsum_def)

lemma dotsum_Cons [simp]: "dotsum (x # a) (y # b) = cnj x * y + dotsum a b"
  by (simp add: dotsum_def)

lemma dotsum_Nil [simp]: "dotsum [] [] = 0"
  by (simp add: dotsum_def)

lemma norm_sq_Cons [simp]: "norm_sq (x # v) = (cmod x)\<^sup>2 + norm_sq v"
  by (simp add: norm_sq_def)

lemma norm_sq_Nil [simp]: "norm_sq [] = 0"
  by (simp add: norm_sq_def)

lemma norm_sq_nonneg: "0 \<le> norm_sq v"
  by (induction v) simp_all



lemma cauchy_schwarz_step:
  fixes p q x y :: real
  assumes "0 \<le> p" "0 \<le> q" "0 \<le> x" "0 \<le> y"
  shows "x * y + p * q \<le> sqrt (x\<^sup>2 + p\<^sup>2) * sqrt (y\<^sup>2 + q\<^sup>2)"
proof -
  have "(x * y + p * q)\<^sup>2 + (x * q - p * y)\<^sup>2 = (x\<^sup>2 + p\<^sup>2) * (y\<^sup>2 + q\<^sup>2)"
    by (simp add: power2_eq_square algebra_simps)
  moreover have "0 \<le> (x * q - p * y)\<^sup>2" by simp
  ultimately have "(x * y + p * q)\<^sup>2 \<le> (x\<^sup>2 + p\<^sup>2) * (y\<^sup>2 + q\<^sup>2)" by linarith
  then have "x * y + p * q \<le> sqrt ((x\<^sup>2 + p\<^sup>2) * (y\<^sup>2 + q\<^sup>2))"
    by (rule real_le_rsqrt)
  then show ?thesis by (simp add: real_sqrt_mult)
qed

lemma cauchy_schwarz:
  "length a = length b \<Longrightarrow> cmod (dotsum a b) \<le> sqrt (norm_sq a) * sqrt (norm_sq b)"
proof (induction a b rule: list_induct2)
  case Nil
  then show ?case by simp
next
  case (Cons x a y b)
  let ?p = "sqrt (norm_sq a)" and ?q = "sqrt (norm_sq b)"
  have "cmod (dotsum (x # a) (y # b)) \<le> cmod (cnj x * y) + cmod (dotsum a b)"
    by (simp add: norm_triangle_ineq)
  also have "\<dots> \<le> cmod x * cmod y + ?p * ?q"
    using Cons.IH by (simp add: norm_mult)
  also have "\<dots> \<le> sqrt ((cmod x)\<^sup>2 + ?p\<^sup>2) * sqrt ((cmod y)\<^sup>2 + ?q\<^sup>2)"
    by (rule cauchy_schwarz_step) (simp_all add: norm_sq_nonneg)
  also have "\<dots> = sqrt (norm_sq (x # a)) * sqrt (norm_sq (y # b))"
    by (simp add: norm_sq_nonneg)
  finally show ?case .
qed

lemma dotsum_braket:
  "length a = length b \<Longrightarrow> dotsum a b = braket a b"
proof -
  assume l: "length a = length b"
  have "dotsum a b = (\<Sum>i = 0..<length a. map2 (\<lambda>x y. cnj x * y) a b ! i)"
    using l by (simp add: dotsum_def sum_list_sum_nth)
  also have "\<dots> = (\<Sum>i = 0..<length a. cnj (a ! i) * (b ! i))"
    by (rule sum.cong) (use l in simp_all)
  finally show ?thesis by (simp add: braket_def atLeast0LessThan)
qed

subsection \<open>Claims about gates and fidelity\<close>






text \<open>
  Claim C5, as amended.  For every two states of equal length, \<open>fidelity a b\<close>
  returns \<open>|\<langle>a|b\<rangle>|\<^sup>2\<close>; this value is at least \<open>0\<close> and at most the product of
  the squared norms of \<open>a\<close> and \<open>b\<close>.  Hence for states whose squared norms
  are at most \<open>1 + 1e-9\<close> (states normalised up to rounding) it lies between
  \<open>0\<close> and \<open>1 + 1e-8\<close>.
\<close>

theorem fidelity_squared_overlap_bounds:
  assumes "length a = length b"
  shows "fidelity a b = Inr ((cmod (braket a b))\<^sup>2)
       \<and> 0 \<le> (cmod (braket a b))\<^sup>2
       \<and> (cmod (braket a b))\<^sup>2 \<le> norm_sq a * norm_sq b
       \<and> (norm_sq a \<le> 1 + 1 / 10 ^ 9 \<and> norm_sq b \<le> 1 + 1 / 10 ^ 9
            \<longrightarrow> (cmod (braket a b))\<^sup>2 \<le> 1 + 1 / 10 ^ 8)"
proof -
  have f: "fidelity a b = Inr ((cmod (braket a b))\<^sup>2)"
    using assms by (simp add: fidelity_def vdot_dotsum dotsum_braket)
  have na: "0 \<le> norm_sq a" and nb: "0 \<le> norm_sq b" by (rule norm_sq_nonneg)+
  have "cmod (braket a b) \<le> sqrt (norm_sq a) * sqrt (norm_sq b)"
    using cauchy_schwarz[OF assms] by (simp add: dotsum_braket[OF assms])
  then have "(cmod (braket a b))\<^sup>2 \<le> (sqrt (norm_sq a) * sqrt (norm_sq b))\<^sup>2"
    by (intro power_mono) simp_all
  also have "\<dots> = norm_sq a * norm_sq b"
    using na nb by (simp add: power_mult_distrib)
  finally have cs: "(cmod (braket a b))\<^sup>2 \<le> norm_sq a * norm_sq b" .
  have "(cmod (braket a b))\<^sup>2 \<le> 1 + 1 / 10 ^ 8"
    if "norm_sq a \<le> 1 + 1 / 10 ^ 9" "norm_sq b \<le> 1 + 1 / 10 ^ 9"
  proof -
    have "norm_sq a * norm_sq b \<le> (1 + 1 / 10 ^ 9) * (1 + 1 / 10 ^ 9)"
      using that na nb by (intro mult_mono) simp_all
    also have "\<dots> \<le> 1 + 1 / 10 ^ 8" by simp
    finally show ?thesis using cs by simp
  qed
  then show ?thesis using f cs by simp
qed

text \<open>
  Witness for C5 as amended: the state \<open>[0, 1]\<close> against the state whose two
  amplitudes are the float64 value of \<open>np.sqrt(0.5)\<close>,
  \<open>6369051672525773 / 2^53\<close>.
\<close>

theorem fidelity_squared_overlap_bounds_witness:
  "length [0, 1 :: complex] = length [complex_of_real (6369051672525773 / 2 ^ 53), complex_of_real (6369051672525773 / 2 ^ 53)]
   \<and> norm_sq [0, 1] \<le> 1 + 1 / 10 ^ 9
   \<and> norm_sq [complex_of_real (6369051672525773 / 2 ^ 53), complex_of_real (6369051672525773 / 2 ^ 53)] \<le> 1 + 1 / 10 ^ 9
   \<and> fidelity [0, 1] [complex_of_real (6369051672525773 / 2 ^ 53), complex_of_real (6369051672525773 / 2 ^ 53)]
       = Inr ((cmod (braket [0, 1] [complex_of_real (6369051672525773 / 2 ^ 53), complex_of_real (6369051672525773 / 2 ^ 53)]))\<^sup>2)
   \<and> 0 \<le> (cmod (braket [0, 1] [complex_of_real (6369051672525773 / 2 ^ 53), complex_of_real (6369051672525773 / 2 ^ 53)]))\<^sup>2
   \<and> (cmod (braket [0, 1] [complex_of_real (6369051672525773 / 2 ^ 53), complex_of_real (6369051672525773 / 2 ^ 53)]))\<^sup>2 \<le> norm_sq [0, 1] * norm_sq [complex_of_real (6369051672525773 / 2 ^ 53), complex_of_real (6369051672525773 / 2 ^ 53)]
   \<and> (cmod (braket [0, 1] [complex_of_real (6369051672525773 / 2 ^ 53), complex_of_real (6369051672525773 / 2 ^ 53)]))\<^sup>2 \<le> 1 + 1 / 10 ^ 8"
proof -
  let ?b = "[complex_of_real (6369051672525773 / 2 ^ 53), complex_of_real (6369051672525773 / 2 ^ 53)]"
  have l: "length [0, 1 :: complex] = length ?b" by simp
  have a: "norm_sq [0, 1] \<le> 1 + 1 / 10 ^ 9" by (simp add: norm_sq_def)
  have b: "norm_sq ?b \<le> 1 + 1 / 10 ^ 9" by (simp add: norm_sq_def power2_eq_square)
  from fidelity_squared_overlap_bounds[OF l] l a b show ?thesis by blast
qed

text \<open>
  Claim C5 as stated fails for states that are normalised only up to rounding.
  The state whose two amplitudes are the float64 value of \<open>np.sqrt(0.5)\<close> has a
  squared norm within \<open>1e-15\<close> of \<open>1\<close>, and its fidelity with itself is greater
  than \<open>1\<close>.
\<close>

theorem fidelity_above_one_counterexample:
  "length [complex_of_real (6369051672525773 / 2 ^ 53), complex_of_real (6369051672525773 / 2 ^ 53)] = length [complex_of_real (6369051672525773 / 2 ^ 53), complex_of_real (6369051672525773 / 2 ^ 53)]
   \<and> \<bar>norm_sq [complex_of_real (6369051672525773 / 2 ^ 53), complex_of_real (6369051672525773 / 2 ^ 53)] - 1\<bar> \<le> 1 / 10 ^ 15
   \<and> fidelity [complex_of_real (6369051672525773 / 2 ^ 53), complex_of_real (6369051672525773 / 2 ^ 53)] [complex_of_real (6369051672525773 / 2 ^ 53), complex_of_real (6369051672525773 / 2 ^ 53)] = Inr ((2 * (6369051672525773 / 2 ^ 53)\<^sup>2)\<^sup>2)
   \<and> (1::real) < (2 * (6369051672525773 / 2 ^ 53)\<^sup>2)\<^sup>2"
proof -
  have n: "\<bar>norm_sq [complex_of_real (6369051672525773 / 2 ^ 53), complex_of_real (6369051672525773 / 2 ^ 53)] - 1\<bar> \<le> 1 / 10 ^ 15"
    by (simp add: norm_sq_def power2_eq_square)
  have "complex_of_real (6369051672525773 / 2 ^ 53) * complex_of_real (6369051672525773 / 2 ^ 53) + complex_of_real (6369051672525773 / 2 ^ 53) * complex_of_real (6369051672525773 / 2 ^ 53) = complex_of_real (2 * (6369051672525773 / 2 ^ 53)\<^sup>2)"
    by (simp add: power2_eq_square)
  then have f: "fidelity [complex_of_real (6369051672525773 / 2 ^ 53), complex_of_real (6369051672525773 / 2 ^ 53)] [complex_of_real (6369051672525773 / 2 ^ 53), complex_of_real (6369051672525773 / 2 ^ 53)] = Inr ((2 * (6369051672525773 / 2 ^ 53)\<^sup>2)\<^sup>2)"
    by (simp add: fidelity_def vdot_def del: of_real_mult of_real_divide of_real_numeral of_real_power)
  have g: "(1::real) < (2 * (6369051672525773 / 2 ^ 53)\<^sup>2)\<^sup>2"
    by (simp add: power2_eq_square)
  from n f g show ?thesis by simp
qed

text \<open>
  Claim C6, as amended.  For every two states of different lengths, \<open>fidelity\<close>
  returns no value: it fails with the \<open>ValueError\<close> that \<open>np.vdot\<close> raises.
\<close>

theorem fidelity_length_mismatch_raises:
  "length a \<noteq> length b \<Longrightarrow> fidelity a b = Inl ValueError"
  by (simp add: fidelity_def vdot_def)

text \<open>
  Witness for C6 as amended: a one-qubit state against a two-qubit state.
\<close>

theorem fidelity_length_mismatch_raises_witness:
  "length [1, 0 :: complex] \<noteq> length [1, 0, 0, 0 :: complex]
   \<and> fidelity [1, 0] [1, 0, 0, 0] = Inl ValueError"
proof -
  have l: "length [1, 0 :: complex] \<noteq> length [1, 0, 0, 0 :: complex]" by simp
  from fidelity_length_mismatch_raises[OF l] l show ?thesis by blast
qed

text \<open>
  Claim C6 as stated fails: for a one-qubit state against a two-qubit state
  the error is not \<open>DimensionMismatch\<close>.
\<close>

theorem fidelity_dimension_mismatch_counterexample:
  "length [1, 0 :: complex] \<noteq> length [1, 0, 0, 0 :: complex]
   \<and> fidelity [1, 0] [1, 0, 0, 0] \<noteq> Inl DimensionMismatch"
  by (simp add: fidelity_def vdot_def)

section \<open>The experiment driver (src/validation/sequence/two\_node\_barrett\_kok.py)\<close>

subsection \<open>SimpleManager\<close>

text \<open>
  \<open>SimpleManager.__init__\<close> stores the owner and the memory name and starts
  both counters at \<open>0\<close> with an empty fidelity history.  The owner is a node
  object of the SeQUeNCe library; only its name is kept here.
\<close>

record SimpleManager =
  owner :: string
  memo_name :: string
  raw_counter :: int
  ent_counter :: int
  fidelities :: "real list"

definition new_manager :: "string \<Rightarrow> string \<Rightarrow> SimpleManager" where
  "new_manager own memo =
     \<lparr>owner = own, memo_name = memo, raw_counter = 0, ent_counter = 0, fidelities = []\<rparr>"

text \<open>
  \<open>Memory\<close> is a class of the SeQUeNCe library.  \<open>update\<close> reads its attribute
  \<open>fidelity\<close> (the field \<open>memory_fidelity\<close>; the name \<open>fidelity\<close> is taken by the
  function above) and calls its method \<open>reset()\<close>.  The other attributes are the
  extension part of the record, and \<open>reset\<close> is a parameter of the model.
\<close>

record Memory =
  memory_fidelity :: real

text \<open>
  \<open>update(self, protocol, memory, state)\<close> returns the manager and the memory
  after the call.
\<close>

definition update ::
  "('m Memory_scheme \<Rightarrow> 'm Memory_scheme) \<Rightarrow> SimpleManager \<Rightarrow> 'p \<Rightarrow> 'm Memory_scheme \<Rightarrow> string
     \<Rightarrow> SimpleManager \<times> 'm Memory_scheme" where
  "update reset self protocol memory state =
     (if state = ''RAW''
      then (self\<lparr>raw_counter := raw_counter self + 1\<rparr>, reset memory)
      else (self\<lparr>ent_counter := ent_counter self + 1,
                 fidelities := fidelities self @ [memory_fidelity memory]\<rparr>,
            memory))"

text \<open>
  A series of \<open>update\<close> calls on one manager, each with its own protocol,
  memory and outcome.
\<close>

fun updates ::
  "('m Memory_scheme \<Rightarrow> 'm Memory_scheme) \<Rightarrow> SimpleManager
     \<Rightarrow> ('p \<times> 'm Memory_scheme \<times> string) list \<Rightarrow> SimpleManager" where
  "updates reset self [] = self"
| "updates reset self ((protocol, memory, state) # calls) =
     updates reset (fst (update reset self protocol memory state)) calls"

lemma update_sum:
  "raw_counter (fst (update reset self p m st)) + ent_counter (fst (update reset self p m st))
   = raw_counter self + ent_counter self + 1"
  by (simp add: update_def)

lemma update_prefix: "prefix (fidelities self) (fidelities (fst (update reset self p m st)))"
  by (simp add: update_def)

lemma updates_sum:
  "raw_counter (updates reset self calls) + ent_counter (updates reset self calls)
   = raw_counter self + ent_counter self + int (length calls)"
proof (induction calls arbitrary: self)
  case Nil
  then show ?case by simp
next
  case (Cons c calls)
  obtain p m st where c: "c = (p, m, st)" by (cases c)
  show ?case
    using Cons[of "fst (update reset self p m st)"] update_sum[of reset self p m st]
    by (simp add: c)
qed

lemma updates_prefix: "prefix (fidelities self) (fidelities (updates reset self calls))"
proof (induction calls arbitrary: self)
  case Nil
  then show ?case by simp
next
  case (Cons c calls)
  obtain p m st where c: "c = (p, m, st)" by (cases c)
  have "prefix (fidelities self) (fidelities (fst (update reset self p m st)))"
    by (rule update_prefix)
  also have "prefix \<dots> (fidelities (updates reset (fst (update reset self p m st)) calls))"
    by (rule Cons)
  finally show ?case by (simp add: c)
qed

subsection \<open>Statistics computed by run\_experiment\<close>

text \<open>
  Python's \<open>/\<close> raises \<open>ZeroDivisionError\<close> on a zero divisor.  The counters
  are Python ints; the simulated time \<open>tl.now()\<close> and the fidelities are
  numbers, modelled as reals.
\<close>

definition truediv :: "real \<Rightarrow> real \<Rightarrow> py_error + real" where
  "truediv a b = (if b = 0 then Inl ZeroDivisionError else Inr (a / b))"

text \<open>
  \<open>total = successes + failures\<close>;
  \<open>success_rate = successes / total if total > 0 else 0\<close>.
\<close>

definition success_rate :: "int \<Rightarrow> int \<Rightarrow> py_error + real" where
  "success_rate successes failures =
     (let total = successes + failures
      in if total > 0 then truediv (real_of_int successes) (real_of_int total) else Inr 0)"

text \<open>
  \<open>sim_time_seconds = tl.now() / 1e12\<close>;
  \<open>throughput = successes / sim_time_seconds if sim_time_seconds > 0 else 0\<close>.
\<close>

definition throughput :: "int \<Rightarrow> real \<Rightarrow> py_error + real" where
  "throughput successes now =
     (case truediv now (10 ^ 12) of
        Inl err \<Rightarrow> Inl err
      | Inr sim_time_seconds \<Rightarrow>
          if sim_time_seconds > 0 then truediv (real_of_int successes) sim_time_seconds
          else Inr 0)"

text \<open>
  \<open>avg_fidelity = sum(fidelities) / len(fidelities) if fidelities else 0\<close>.
\<close>

definition avg_fidelity :: "real list \<Rightarrow> py_error + real" where
  "avg_fidelity fids =
     (if fids \<noteq> [] then truediv (sum_list fids) (real (length fids)) else Inr 0)"

text \<open>
  Python's \<open>b ** x\<close> with a positive base and a float exponent is the float64
  power.  It raises \<open>OverflowError\<close> when the result is too large for a
  float64, and it underflows: a result at or below \<open>2^-1075\<close>, half of the
  least positive float64 \<open>2^-1074\<close>, is rounded to \<open>0.0\<close>.  The rounding of
  the other results to 53 bits is not modelled.
\<close>

definition float_pow :: "real \<Rightarrow> real \<Rightarrow> py_error + real" where
  "float_pow b x =
     (let r = b powr x
      in if 2 ^ 1024 \<le> r then Inl OverflowError
         else if r \<le> 1 / 2 ^ 1075 then Inr 0
         else Inr r)"

text \<open>
  \<open>expected_loss_db = attenuation * distance_m\<close>;
  \<open>expected_transmission = 10 ** (-expected_loss_db / 10)\<close>.
\<close>

definition expected_transmission :: "real \<Rightarrow> real \<Rightarrow> py_error + real" where
  "expected_transmission attenuation distance_m =
     (let expected_loss_db = attenuation * distance_m
      in float_pow 10 (- expected_loss_db / 10))"

subsection \<open>Claims about the experiment driver\<close>

text \<open>
  Claim C7.  None of the three derived statistics raises: for all counter
  values, fidelity histories and simulated times each returns a value.  The
  success rate is \<open>ent / (ent + raw)\<close> when the total is positive (for the
  non-negative counters of a manager: when at least one attempt is recorded)
  and \<open>0\<close> otherwise; the average fidelity of the empty history is \<open>0\<close>; the
  throughput at elapsed simulated time \<open>0\<close> is \<open>0\<close>.
\<close>

theorem derived_statistics_total:
  "success_rate ent raw =
     Inr (if 0 < ent + raw then real_of_int ent / real_of_int (ent + raw) else 0)
   \<and> avg_fidelity fs = Inr (if fs = [] then 0 else sum_list fs / real (length fs))
   \<and> throughput ent now = Inr (if 0 < now then real_of_int ent / (now / 10 ^ 12) else 0)
   \<and> avg_fidelity [] = Inr 0
   \<and> throughput ent 0 = Inr 0"
  by (simp add: success_rate_def avg_fidelity_def throughput_def truediv_def Let_def)

text \<open>
  Witness for C7: three successes and one failure give the rate \<open>3/4\<close>; no
  attempt gives \<open>0\<close>; two fidelities average to \<open>0.85\<close>; three pairs in two
  simulated seconds give the throughput \<open>3/2\<close>, and \<open>0\<close> at time \<open>0\<close>.
\<close>

theorem derived_statistics_total_witness:
  "success_rate 3 1 = Inr (3 / 4) \<and> success_rate 0 0 = Inr 0
   \<and> avg_fidelity [9 / 10, 8 / 10] = Inr (17 / 20) \<and> avg_fidelity [] = Inr 0
   \<and> throughput 3 (2 * 10 ^ 12) = Inr (3 / 2) \<and> throughput 3 0 = Inr 0"
proof -
  from derived_statistics_total[of 3 1 "[9 / 10, 8 / 10]" "2 * 10 ^ 12"]
  have 1: "success_rate 3 1 = Inr (3 / 4)" "avg_fidelity [9 / 10, 8 / 10] = Inr (17 / 20)"
    "throughput 3 (2 * 10 ^ 12) = Inr (3 / 2)" "avg_fidelity [] = Inr 0" "throughput 3 0 = Inr 0"
    by simp_all
  from derived_statistics_total[of 0 0 "[]" 0]
  have 2: "success_rate 0 0 = Inr 0" by simp
  from 1 2 show ?thesis by blast
qed

text \<open>
  Claim C8, as amended.  For every non-negative attenuation and non-negative
  distance the expected transmission \<open>10 ** (-attenuation * distance / 10)\<close> is
  computed without an exception and lies between \<open>0\<close> and \<open>1\<close>, both included;
  it is greater than \<open>0\<close> when the loss \<open>attenuation * distance\<close> is at most
  \<open>3200\<close> dB.
\<close>

theorem expected_transmission_bounds:
  assumes "0 \<le> attenuation" "0 \<le> distance_m"
  shows "\<exists>t. expected_transmission attenuation distance_m = Inr t \<and> 0 \<le> t \<and> t \<le> 1
             \<and> (attenuation * distance_m \<le> 3200 \<longrightarrow> 0 < t)"
proof -
  define x where "x = - (attenuation * distance_m) / 10"
  define r :: real where "r = 10 powr x"
  have "x \<le> 0" using assms by (simp add: x_def)
  then have "r \<le> 10 powr 0" unfolding r_def by (intro powr_mono) simp_all
  then have r1: "r \<le> 1" by simp
  have r0: "0 < r" by (simp add: r_def)
  have "(1::real) < 2 ^ 1024" by simp
  then have no: "\<not> 2 ^ 1024 \<le> r" using r1 by linarith
  have low: "1 / 2 ^ 1075 < r" if "attenuation * distance_m \<le> 3200"
  proof -
    have "- 320 \<le> x" using that by (simp add: x_def)
    then have "(10::real) powr (- 320) \<le> r" unfolding r_def by (intro powr_mono) simp_all
    moreover have "(10::real) powr (- 320) = 1 / 10 ^ 320"
      by (simp add: powr_minus_divide)
    moreover have "(1::real) / 2 ^ 1075 < 1 / 10 ^ 320" by simp
    ultimately show ?thesis by linarith
  qed
  have e: "expected_transmission attenuation distance_m =
             (if r \<le> 1 / 2 ^ 1075 then Inr 0 else Inr r)"
    using no by (simp add: expected_transmission_def float_pow_def Let_def x_def r_def)
  show ?thesis
  proof (cases "r \<le> 1 / 2 ^ 1075")
    case True
    then show ?thesis using e low by auto
  next
    case False
    then show ?thesis using e r0 r1 by auto
  qed
qed

text \<open>
  Witness for C8 as amended: attenuation \<open>0.01\<close> dB/m over \<open>1000\<close> m is a loss
  of \<open>10\<close> dB and a transmission of \<open>1/10\<close>.
\<close>

theorem expected_transmission_bounds_witness:
  "(0::real) \<le> 1 / 100 \<and> (0::real) \<le> 1000 \<and> (1 / 100 :: real) * 1000 \<le> 3200
   \<and> expected_transmission (1 / 100) 1000 = Inr (1 / 10)
   \<and> (0::real) \<le> 1 / 10 \<and> (0::real) < 1 / 10 \<and> (1 / 10 :: real) \<le> 1"
proof -
  have a: "(0::real) \<le> 1 / 100" and d: "(0::real) \<le> 1000"
    and l: "(1 / 100 :: real) * 1000 \<le> 3200" by simp_all
  have e: "expected_transmission (1 / 100) 1000 = Inr (1 / 10)"
    by (simp add: expected_transmission_def float_pow_def powr_minus_divide)
  from expected_transmission_bounds[OF a d] e l
  have "(0::real) \<le> 1 / 10 \<and> (0::real) < 1 / 10 \<and> (1 / 10 :: real) \<le> 1" by simp
  with a d l e show ?thesis by blast
qed

text \<open>
  Claim C8 as stated fails.  With the attenuation \<open>0.0002\<close> dB/m of the script
  over \<open>16200\<close> km the loss is \<open>3240\<close> dB; \<open>10 ** -324\<close> underflows and the
  expected transmission is exactly \<open>0.0\<close>, which is not in \<open>(0, 1]\<close>.
\<close>

theorem expected_transmission_underflow_counterexample:
  "(0::real) \<le> 2 / 10000 \<and> (0::real) \<le> 16200000
   \<and> expected_transmission (2 / 10000) 16200000 = Inr 0"
proof -
  have "(10::real) powr (- 324) = 1 / 10 ^ 324" by (simp add: powr_minus_divide)
  moreover have "(1::real) / 10 ^ 324 \<le> 1 / 2 ^ 1075" by simp
  moreover have "\<not> (2::real) ^ 1024 \<le> 1 / 10 ^ 324" by simp
  ultimately have "expected_transmission (2 / 10000) 16200000 = Inr 0"
    by (simp add: expected_transmission_def float_pow_def)
  then show ?thesis by simp
qed

text \<open>
  Claim C9.  A call of \<open>update\<close> with outcome \<open>'RAW'\<close> adds one to
  \<open>raw_counter\<close> and changes neither \<open>ent_counter\<close> nor the fidelity history; a
  call with any other outcome adds one to \<open>ent_counter\<close>, leaves \<open>raw_counter\<close>
  and appends the memory's fidelity to the history.  Hence after any series of
  calls on a new manager the two counters add up to the number of calls, and the
  history before a series of calls is a prefix of the history after it.
\<close>

theorem update_counts_and_history:
  "(let self' = fst (update reset self protocol memory state) in
     (if state = ''RAW''
      then raw_counter self' = raw_counter self + 1 \<and> ent_counter self' = ent_counter self
           \<and> fidelities self' = fidelities self
      else raw_counter self' = raw_counter self \<and> ent_counter self' = ent_counter self + 1
           \<and> fidelities self' = fidelities self @ [memory_fidelity memory]))
   \<and> raw_counter (updates reset (new_manager own memo) calls)
       + ent_counter (updates reset (new_manager own memo) calls) = int (length calls)
   \<and> prefix (fidelities self) (fidelities (updates reset self calls))"
  using updates_sum[of reset "new_manager own memo" calls] updates_prefix[of self reset calls]
  by (simp add: update_def new_manager_def Let_def)

text \<open>
  Witness for C9: the outcomes \<open>'RAW'\<close>, \<open>'ENTANGLED'\<close>, \<open>'RAW'\<close> on a new
  manager, with a memory of fidelity \<open>0.95\<close> and a reset that sets the
  fidelity to \<open>0\<close>.
\<close>

theorem update_counts_and_history_witness:
  "updates (\<lambda>m. m\<lparr>memory_fidelity := 0\<rparr>) (new_manager ''node1'' ''node1.memo'')
     [((), \<lparr>memory_fidelity = 95 / 100\<rparr>, ''RAW''),
      ((), \<lparr>memory_fidelity = 95 / 100\<rparr>, ''ENTANGLED''),
      ((), \<lparr>memory_fidelity = 95 / 100\<rparr>, ''RAW'')]
   = \<lparr>owner = ''node1'', memo_name = ''node1.memo'', raw_counter = 2, ent_counter = 1,
       fidelities = [95 / 100]\<rparr>
   \<and> update (\<lambda>m. m\<lparr>memory_fidelity := 0\<rparr>) (new_manager ''node1'' ''node1.memo'') ()
        \<lparr>memory_fidelity = 95 / 100\<rparr> ''RAW''
     = (\<lparr>owner = ''node1'', memo_name = ''node1.memo'', raw_counter = 1, ent_counter = 0,
          fidelities = []\<rparr>, \<lparr>memory_fidelity = 0\<rparr>)"
  using update_counts_and_history[of "\<lambda>m. m\<lparr>memory_fidelity := 0\<rparr>"
      "new_manager ''node1'' ''node1.memo''" "()" "\<lparr>memory_fidelity = 95 / 100\<rparr>" "''RAW''"
      "''node1''" "''node1.memo''"
      "[((), \<lparr>memory_fidelity = 95 / 100\<rparr>, ''RAW''),
        ((), \<lparr>memory_fidelity = 95 / 100\<rparr>, ''ENTANGLED''),
        ((), \<lparr>memory_fidelity = 95 / 100\<rparr>, ''RAW'')]"]
  by (simp add: update_def new_manager_def)

end
